theory Spec2Isabelle
  imports Main
begin

section \<open>Strings, numbers and arrays of the host language\<close>

text \<open>
  Strings are lists of characters, a character being a code unit below 256.
  \<open>startsWith\<close> and \<open>endsWith\<close> are the methods of \<open>String.prototype\<close> with the
  receiver first: every string starts and ends with the empty string.
\<close>

definition startsWith :: "string \<Rightarrow> string \<Rightarrow> bool" where
  "startsWith s p = (take (length p) s = p)"

definition endsWith :: "string \<Rightarrow> string \<Rightarrow> bool" where
  "endsWith s p = (length p \<le> length s \<and> drop (length s - length p) s = p)"

text \<open>
  \<open>xs.indexOf(x)\<close>: the first position of \<open>x\<close>, or \<open>-1\<close> when \<open>x\<close> does not
  occur.
\<close>

fun indexOf :: "'a list \<Rightarrow> 'a \<Rightarrow> int" where
  "indexOf [] x = -1"
| "indexOf (y # ys) x =
     (if y = x then 0 else (let i = indexOf ys x in if i < 0 then -1 else i + 1))"

text \<open>
  \<open>Array.from(new Set(xs))\<close>: a \<open>Set\<close> iterates in insertion order, and adding a
  value it already holds changes nothing, so the first occurrence of each value is kept.
\<close>

definition Array_from_Set :: "'a list \<Rightarrow> 'a list" where
  "Array_from_Set xs = fold (\<lambda>x acc. if x \<in> set acc then acc else acc @ [x]) xs []"

text \<open>
  A number is a double. The numbers this program meets are the results of \<open>parseInt\<close>:
  \<open>NaN\<close>, an integer, the negative zero, and the two infinities.
\<close>

datatype number = NaN | Finite int | NegativeZero | Infinity | NegativeInfinity

definition isNaN :: "number \<Rightarrow> bool" where
  "isNaN x = (x = NaN)"

text \<open>
  The number of binary digits of a positive integer, and the double nearest to it: the
  nearest number with 53 significant binary digits, of two equally near ones the one with
  the even significand; \<open>None\<close> when that is beyond the largest double.
\<close>

function bitLength :: "int \<Rightarrow> nat" where
  "bitLength n = (if n \<le> 0 then 0 else Suc (bitLength (n div 2)))"
  by pat_completeness auto

termination
  by (relation "measure nat") simp_all

declare bitLength.simps [simp del]

definition nearestDouble :: "int \<Rightarrow> int option" where
  "nearestDouble m =
     (if bitLength m \<le> 53 then Some m
      else
        (let e = bitLength m - 53;
             q = m div 2 ^ e;
             r = m mod 2 ^ e;
             q' = (if 2 ^ (e - 1) < r \<or> (r = 2 ^ (e - 1) \<and> odd q) then q + 1 else q)
         in if 2 ^ 1024 \<le> q' * 2 ^ e then None else Some (q' * 2 ^ e)))"

text \<open>The number value of an integer given by its sign and its magnitude.\<close>

definition numberValue :: "bool \<Rightarrow> int \<Rightarrow> number" where
  "numberValue negative m =
     (if m = 0 then (if negative then NegativeZero else Finite 0)
      else
        (case nearestDouble m of
           None \<Rightarrow> if negative then NegativeInfinity else Infinity
         | Some v \<Rightarrow> Finite (if negative then - v else v)))"

text \<open>
  The white space and the line terminators that \<open>parseInt\<close> skips, by code point: tab,
  line feed, vertical tab, form feed, carriage return, the space separators (U+0020,
  U+00A0, U+1680, U+2000 to U+200A, U+202F, U+205F, U+3000), the line and paragraph
  separators, and U+FEFF.
\<close>

definition isWhiteSpace :: "int \<Rightarrow> bool" where
  "isWhiteSpace n =
     (n \<in> {9, 10, 11, 12, 13, 32, 160, 5760, 8232, 8233, 8239, 8287, 12288, 65279}
      \<or> (8192 \<le> n \<and> n \<le> 8202))"

definition digitValue :: "char \<Rightarrow> nat option" where
  "digitValue c =
     (let n = (of_char c :: nat) in
      if 48 \<le> n \<and> n \<le> 57 then Some (n - 48)
      else if 97 \<le> n \<and> n \<le> 122 then Some (n - 87)
      else if 65 \<le> n \<and> n \<le> 90 then Some (n - 55)
      else None)"

fun leading_digits :: "nat \<Rightarrow> string \<Rightarrow> nat list" where
  "leading_digits R [] = []"
| "leading_digits R (c # cs) =
     (case digitValue c of
        Some d \<Rightarrow> if d < R then d # leading_digits R cs else []
      | None \<Rightarrow> [])"

definition digits_value :: "nat \<Rightarrow> nat list \<Rightarrow> int" where
  "digits_value R ds = foldl (\<lambda>acc d. acc * int R + int d) 0 ds"

text \<open>
  \<open>parseInt(s)\<close> with no radix: leading white space is skipped, one sign is read, a
  prefix \<open>0x\<close> or \<open>0X\<close> selects radix 16, and the longest run of digits of the radix
  is the integer; its number value is the result, and \<open>NaN\<close> when there is no digit.
\<close>

definition parseInt :: "string \<Rightarrow> number" where
  "parseInt s =
     (let S = dropWhile (\<lambda>c. isWhiteSpace (of_char c)) s;
          (negative, S1) = (case S of
                              [] \<Rightarrow> (False, S)
                            | c # cs \<Rightarrow> if c = CHR ''-'' then (True, cs)
                                        else if c = CHR ''+'' then (False, cs) else (False, S));
          (R, S2) = (if take 2 S1 = ''0x'' \<or> take 2 S1 = ''0X'' then (16, drop 2 S1)
                     else (10, S1));
          Z = leading_digits R S2
      in if Z = [] then NaN else numberValue negative (digits_value R Z))"

section \<open>Chain positions\<close>

text \<open>
  A chain point has a slot and a block hash. The begin position of the chain indexer is
  \<open>"origin"\<close>, \<open>"tip"\<close> or a point; its end is \<open>"tip"\<close> or a slot.
\<close>

record point =
  slot :: number
  hash :: string

datatype begin_at = origin | tip | at_point point

datatype end_at = end_tip | end_slot number

text \<open>
  What \<open>index.ts\<close> passes to \<open>indexer.start\<close> as \<open>begin\<close>: the keyword itself, or
  a one-element array holding the point.
\<close>

datatype start_begin = begin_keyword begin_at | begin_candidates "point list"

section \<open>The contexts of the polling indexers\<close>

text \<open>
  What the entry point gives a polling indexer when it starts it (\<open>index.ts\<close>, lines
  133-242): \<open>null\<close> for the two \<open>ipfs\<close> indexers; for \<open>ai.logo\<close> the bucket and an
  empty set of fetched ETags (the type \<open>AiLogoContext\<close> of \<open>logo.ts\<close>, line 19); for
  \<open>ai.podcast\<close> the server, the bucket, the prefix and the limit of words; for
  \<open>ai.ocr\<close> and \<open>ai.project_moderation\<close> the server and the gateway; for a
  \<open>discord\<close> indexer what \<open>createDiscordAlertContext\<close> returns for the channel.
\<close>

record AiLogoContext =
  s3Bucket :: string
  fetched :: "string set"

datatype indexer_context =
    Null
  | AiLogo AiLogoContext
  | AiPodcast string string string nat
  | AiServer string string
  | DiscordAlert string

section \<open>Effects and errors\<close>

text \<open>
  The calls the entry point makes on its collaborators, in the order it makes them.
  \<open>ChainStop immediate saveCheckpoint\<close> is \<open>indexer.stop({immediate, saveCheckpoint})\<close>
  of the chain indexer.
\<close>

datatype effect =
    ConsoleLog string
  | ConsoleWarn string
  | ConsoleError string
  | ProvideOne string
  | Provide "string list"
  | Listen string
  | SetupSchemas
  | IndexerSetup string
  | SetupAdminTables
  | SetupMigrationTables
  | SetupViews
  | CreateDiscordAlertContext string
  | GetChainIndexer
  | StakingStart
  | ChainStart start_begin "(end_at \<times> string option) option"
  | PollingStart string indexer_context
  | ChainStop bool bool
  | StakingStop
  | PollingStop string
  | ConnectionsCleanup

text \<open>
  \<open>Error m\<close> is \<open>new Error(m)\<close>, \<open>Assertion m\<close> a failed \<open>assert(_, m)\<close>,
  \<open>ReferenceError x\<close> a read of the binding \<open>x\<close> before its declaration has run,
  \<open>Rejected e\<close> the rejection of the awaited call \<open>e\<close>, \<open>SqlError m\<close> an error
  the database reports for a statement.
\<close>

datatype error =
    Error string
  | Assertion string
  | ReferenceError string
  | Rejected effect
  | SqlError string

section \<open>The configuration (config.ts)\<close>

text \<open>
  \<open>const [slotStr, hash] = raw.split(":", 2)\<close>: the text before the first colon, and
  the text between the first and the second colon (undefined when there is no colon).
\<close>

definition split_colon2 :: "string \<Rightarrow> string \<times> string option" where
  "split_colon2 raw =
     (takeWhile (\<lambda>c. c \<noteq> CHR '':'') raw,
      case dropWhile (\<lambda>c. c \<noteq> CHR '':'') raw of
        [] \<Rightarrow> None
      | _ # rest \<Rightarrow> Some (takeWhile (\<lambda>c. c \<noteq> CHR '':'') rest))"

text \<open>Lines 15-19. An unset variable and an empty one are both falsy.\<close>

definition requiredEnv :: "(string \<Rightarrow> string option) \<Rightarrow> string \<Rightarrow> error + string" where
  "requiredEnv env key =
     (case env key of
        Some v \<Rightarrow> if v \<noteq> [] then Inr v else Inl (Error (key @ '' must be set''))
      | None \<Rightarrow> Inl (Error (key @ '' must be set'')))"

text \<open>Lines 181-190.\<close>

definition parseChainIndexBegin :: "string option \<Rightarrow> error + begin_at option" where
  "parseChainIndexBegin raw =
     (case raw of
        None \<Rightarrow> Inr None
      | Some r \<Rightarrow>
          if r = [] then Inr None
          else if r = ''origin'' then Inr (Some origin)
          else if r = ''tip'' then Inr (Some tip)
          else
            (case split_colon2 r of
               (slotStr, h) \<Rightarrow>
                 (let n = parseInt slotStr in
                  (case h of
                     Some hs \<Rightarrow>
                       if \<not> isNaN n \<and> hs \<noteq> []
                       then Inr (Some (at_point \<lparr>slot = n, hash = hs\<rparr>))
                       else Inl (Assertion ''Must be <slot>:<hash>'')
                   | None \<Rightarrow> Inl (Assertion ''Must be <slot>:<hash>'')))))"

text \<open>Lines 192-200.\<close>

definition parseChainIndexEnd :: "string option \<Rightarrow> error + end_at option" where
  "parseChainIndexEnd raw =
     (case raw of
        None \<Rightarrow> Inr None
      | Some r \<Rightarrow>
          if r = [] then Inr None
          else if r = ''tip'' then Inr (Some end_tip)
          else
            (let n = parseInt r in
             if \<not> isNaN n then Inr (Some (end_slot n))
             else Inl (Assertion ''Must be <slot>'')))"

text \<open>
  The loaded chain configuration; of its fields only \<open>bootstrap\<close> is read by
  \<open>config.chain\<close>. Reading the file named by \<open>CHAIN_INDEX_CONFIG\<close>, parsing it and
  \<open>loadConfig\<close> are one parameter \<open>load\<close> of the model, from the path to the
  configuration or the error thrown.
\<close>

record chain_file =
  bootstrap :: "point list"

text \<open>
  The result of \<open>config.chain()\<close>. \<open>CHAIN_INDEX_END_DELAY\<close> is kept as the text given to
  \<open>Number\<close>: \<open>None\<close> stands for the number 0 of an unset or empty variable.
\<close>

record chain_config =
  CHAIN_INDEX_BEGIN :: begin_at
  CHAIN_INDEX_END :: "end_at option"
  CHAIN_INDEX_END_DELAY :: "string option"
  CONFIG :: chain_file

definition begin_missing :: string where
  "begin_missing =
     ''CHAIN_INDEX_BEGIN or '' @ [CHR 0x27] @ ''bootstrap'' @ [CHR 0x27] @ '' in config must be set''"

text \<open>
  Lines 130-147. \<open>cached\<close> keeps the result of the first call, so \<open>config.chain()\<close>
  is a function of the environment; \<open>assert\<close> throws with the given message when its
  condition is falsy.
\<close>

definition chain :: "(string \<Rightarrow> string option) \<Rightarrow> (string \<Rightarrow> error + chain_file) \<Rightarrow> error + chain_config" where
  "chain env load =
     (case requiredEnv env ''CHAIN_INDEX_CONFIG'' of
        Inl e \<Rightarrow> Inl e
      | Inr path \<Rightarrow>
          (case load path of
             Inl e \<Rightarrow> Inl e
           | Inr config \<Rightarrow>
               (let bootstrap = (case bootstrap config of [] \<Rightarrow> None | p # _ \<Rightarrow> Some p) in
                (case parseChainIndexBegin (env ''CHAIN_INDEX_BEGIN'') of
                   Inl e \<Rightarrow> Inl e
                 | Inr parsed \<Rightarrow>
                     (let begin = (case parsed of
                                     Some b \<Rightarrow> Some b
                                   | None \<Rightarrow> map_option at_point bootstrap) in
                      (case begin of
                         None \<Rightarrow> Inl (Error begin_missing)
                       | Some b \<Rightarrow>
                           (case parseChainIndexEnd (env ''CHAIN_INDEX_END'') of
                              Inl e \<Rightarrow> Inl e
                            | Inr e \<Rightarrow>
                                Inr \<lparr>CHAIN_INDEX_BEGIN = b,
                                     CHAIN_INDEX_END = e,
                                     CHAIN_INDEX_END_DELAY =
                                       (case env ''CHAIN_INDEX_END_DELAY'' of
                                          None \<Rightarrow> None
                                        | Some d \<Rightarrow> if d = [] then None else Some d),
                                     CONFIG = config\<rparr>)))))))"

text \<open>
  The other configurations that the entry point reads (lines 42-55, 74-79, 89-128 and
  149-160). A required variable that is unset or empty throws, the first one in the order
  of the object literal. Whether \<open>new Date(text)\<close> is a valid date is the host's to say:
  the parameter \<open>date_is_valid\<close>; of the date only the text it was made from is kept.
\<close>

definition andThen :: "error + 'a \<Rightarrow> ('a \<Rightarrow> error + 'b) \<Rightarrow> error + 'b" where
  "andThen r f = (case r of Inl e \<Rightarrow> Inl e | Inr v \<Rightarrow> f v)"

record ai_config =
  AI_SERVER_URL :: string
  AI_S3_BUCKET :: string

definition ai :: "(string \<Rightarrow> string option) \<Rightarrow> error + ai_config" where
  "ai env =
     andThen (requiredEnv env ''AI_SERVER_URL'') (\<lambda>url.
     andThen (requiredEnv env ''AI_S3_BUCKET'') (\<lambda>bucket.
     Inr \<lparr>AI_SERVER_URL = url, AI_S3_BUCKET = bucket\<rparr>))"

record aws_config =
  ASSETS_S3_BUCKET :: string

definition aws :: "(string \<Rightarrow> string option) \<Rightarrow> error + aws_config" where
  "aws env =
     andThen (requiredEnv env ''ASSETS_S3_BUCKET'') (\<lambda>bucket.
     Inr \<lparr>ASSETS_S3_BUCKET = bucket\<rparr>)"

record ipfs_config =
  IPFS_SERVER_URL :: string
  IPFS_GATEWAY_URL :: string

definition ipfs :: "(string \<Rightarrow> string option) \<Rightarrow> error + ipfs_config" where
  "ipfs env =
     andThen (requiredEnv env ''IPFS_SERVER_URL'') (\<lambda>server.
     andThen (requiredEnv env ''IPFS_GATEWAY_URL'') (\<lambda>gateway.
     Inr \<lparr>IPFS_SERVER_URL = server, IPFS_GATEWAY_URL = gateway\<rparr>))"

text \<open>
  Line 50, \<open>/^(http|https):\/\/.*[^/]$/.test(url)\<close>: the text starts with \<open>http://\<close>
  or \<open>https://\<close>; any characters other than line terminators follow, and then, at the
  end of the text, one character other than a slash.
\<close>

definition isLineTerminator :: "int \<Rightarrow> bool" where
  "isLineTerminator n = (n \<in> {10, 13, 8232, 8233})"

definition cexplorer_url_test :: "string \<Rightarrow> bool" where
  "cexplorer_url_test url =
     list_ex (\<lambda>p. startsWith url p
                \<and> (let rest = drop (length p) url in
                   rest \<noteq> [] \<and> last rest \<noteq> CHR ''/''
                   \<and> list_all (\<lambda>c. \<not> isLineTerminator (of_char c)) (butlast rest)))
             [''http://'', ''https://'']"

record cardano_config =
  NETWORK :: string
  CEXPLORER_URL :: string

definition cardano :: "(string \<Rightarrow> string option) \<Rightarrow> error + cardano_config" where
  "cardano env =
     andThen (requiredEnv env ''NETWORK'') (\<lambda>network.
     if \<not> (network = ''preview'' \<or> network = ''preprod'' \<or> network = ''mainnet'')
     then Inl (Assertion ''Network must be either: preview, preprod, mainnet.'')
     else
       andThen (requiredEnv env ''CEXPLORER_URL'') (\<lambda>cexplorerUrl.
       if \<not> cexplorer_url_test cexplorerUrl
       then Inl (Assertion (''Cexplorer url must starts with '' @ [CHR 0x27] @ ''http://''
                            @ [CHR 0x27] @ '' or '' @ [CHR 0x27] @ ''https://'' @ [CHR 0x27]
                            @ '' and must not end with '' @ [CHR 0x27] @ ''/'' @ [CHR 0x27]))
       else Inr \<lparr>NETWORK = network, CEXPLORER_URL = cexplorerUrl\<rparr>))"

record discord_config =
  DISCORD_BOT_TOKEN :: string
  DISCORD_CONTENT_MODERATION_CHANNEL_ID :: string
  DISCORD_BACKING_ALERT_CHANNEL_ID :: string
  DISCORD_WITHDRAW_FUNDS_ALERT_CHANNEL_ID :: string
  DISCORD_DELEGATION_ALERT_CHANNEL_ID :: string
  DISCORD_PROJECT_UPDATE_ALERT_CHANNEL_ID :: string
  DISCORD_KOLOUR_NFT_ALERT_CHANNEL_ID :: string
  DISCORD_GENESIS_KREATION_NFT_ALERT_CHANNEL_ID :: string
  DISCORD_SHINKA_ROLE_ID :: string
  DISCORD_IGNORE_NOTIFICATIONS_BEFORE :: "string option"
  DISCORD_PROJECT_MODERATION_ALERT_CHANNEL_ID :: string

definition discord :: "(string \<Rightarrow> string option) \<Rightarrow> (string \<Rightarrow> bool) \<Rightarrow> error + discord_config" where
  "discord env date_is_valid =
     (let rawEnv = (case env ''DISCORD_IGNORE_NOTIFICATIONS_BEFORE'' of
                      None \<Rightarrow> None
                    | Some v \<Rightarrow> if v = [] then None else Some v)
      in if (case rawEnv of None \<Rightarrow> False | Some v \<Rightarrow> \<not> date_is_valid v)
         then Inl (Assertion ''Discord ignored notifications before must be ISO 8601 compliant'')
         else
           andThen (requiredEnv env ''DISCORD_BOT_TOKEN'') (\<lambda>token.
           andThen (requiredEnv env ''DISCORD_CONTENT_MODERATION_CHANNEL_ID'') (\<lambda>moderation.
           andThen (requiredEnv env ''DISCORD_BACKING_ALERT_CHANNEL_ID'') (\<lambda>backing.
           andThen (requiredEnv env ''DISCORD_WITHDRAW_FUNDS_ALERT_CHANNEL_ID'') (\<lambda>withdraw.
           andThen (requiredEnv env ''DISCORD_DELEGATION_ALERT_CHANNEL_ID'') (\<lambda>delegation.
           andThen (requiredEnv env ''DISCORD_PROJECT_UPDATE_ALERT_CHANNEL_ID'') (\<lambda>update.
           andThen (requiredEnv env ''DISCORD_KOLOUR_NFT_ALERT_CHANNEL_ID'') (\<lambda>kolour.
           andThen (requiredEnv env ''DISCORD_GENESIS_KREATION_NFT_ALERT_CHANNEL_ID'') (\<lambda>genesis.
           andThen (requiredEnv env ''DISCORD_SHINKA_ROLE_ID'') (\<lambda>shinka.
           andThen (requiredEnv env ''DISCORD_PROJECT_MODERATION_ALERT_CHANNEL_ID'') (\<lambda>project.
           Inr \<lparr>DISCORD_BOT_TOKEN = token,
                DISCORD_CONTENT_MODERATION_CHANNEL_ID = moderation,
                DISCORD_BACKING_ALERT_CHANNEL_ID = backing,
                DISCORD_WITHDRAW_FUNDS_ALERT_CHANNEL_ID = withdraw,
                DISCORD_DELEGATION_ALERT_CHANNEL_ID = delegation,
                DISCORD_PROJECT_UPDATE_ALERT_CHANNEL_ID = update,
                DISCORD_KOLOUR_NFT_ALERT_CHANNEL_ID = kolour,
                DISCORD_GENESIS_KREATION_NFT_ALERT_CHANNEL_ID = genesis,
                DISCORD_SHINKA_ROLE_ID = shinka,
                DISCORD_IGNORE_NOTIFICATIONS_BEFORE = rawEnv,
                DISCORD_PROJECT_MODERATION_ALERT_CHANNEL_ID = project\<rparr>)))))))))))"

section \<open>The registry of indexers (index.ts, lines 131-252)\<close>

text \<open>
  The environment \<open>ENV\<close> of \<open>config.ts\<close> (line 26) is \<open>process.env.ENV\<close>, or
  \<open>development\<close> when that is unset or empty, cast to the type \<open>Env\<close>: it is taken
  here as a value of that type. \<open>AllIndexerKeys\<close> is \<open>objectKeys(AllIndexers)\<close>, the
  keys of the registry in the order in which the object literal lists them.
\<close>

datatype Env = development | testnet | mainnet

definition AllIndexerKeys :: "string list" where
  "AllIndexerKeys =
    [''chain'',
     ''ipfs.project_info'',
     ''ipfs.project_announcement'',
     ''ai.logo'',
     ''ai.podcast'',
     ''ai.ocr'',
     ''ai.project_moderation'',
     ''discord.project_alert'',
     ''discord.backing_alert'',
     ''discord.withdraw_funds_alert'',
     ''discord.delegation_alert'',
     ''discord.project_update_alert'',
     ''discord.project_moderation_alert'',
     ''discord.kolour_nft_alert'',
     ''discord.genesis_kreation_nft_alert'']"

text \<open>
  \<open>DisabledIndexers\<close> has the single key \<open>development\<close>; the lookup for another
  environment of type \<open>Env\<close> is undefined and \<open>??\<close> replaces it by the empty array.
\<close>

definition DisabledIndexers :: "Env \<Rightarrow> string list option" where
  "DisabledIndexers env =
    (case env of
       development \<Rightarrow>
         Some (filter (\<lambda>k. startsWith k ''ai.'' \<or> startsWith k ''discord.'') AllIndexerKeys)
     | _ \<Rightarrow> None)"

definition env_name :: "Env \<Rightarrow> string" where
  "env_name e = (case e of development \<Rightarrow> ''development'' | testnet \<Rightarrow> ''testnet'' | mainnet \<Rightarrow> ''mainnet'')"

definition disabled :: "Env \<Rightarrow> string list" where
  "disabled env = (case DisabledIndexers env of Some ks \<Rightarrow> ks | None \<Rightarrow> [])"

section \<open>Argument processing (index.ts, lines 266-297)\<close>

text \<open>
  Lines 268-274: when the arguments include \<open>all\<close>, every registered name is visited in
  registry order; a disabled one is reported by a warning, any other is pushed onto the
  arguments. The result is the extended argument array and the names warned about.
\<close>

definition push_all :: "Env \<Rightarrow> bool \<Rightarrow> string list \<Rightarrow> string list \<times> string list" where
  "push_all env includesAll args =
     fold (\<lambda>name (args, warned).
             if name = ''chain'' \<and> \<not> includesAll then (args, warned)
             else if name \<in> set (disabled env) then (args, warned @ [name])
             else (args @ [name], warned))
          AllIndexerKeys (args, [])"

text \<open>
  Lines 276-284: \<open>flatMap\<close> visits the arguments from left to right; the first argument
  ending in a dot that no registered name starts with throws.
\<close>

fun expandArgs :: "string list \<Rightarrow> error + string list" where
  "expandArgs [] = Inr []"
| "expandArgs (arg # rest) =
     (if endsWith arg ''.'' then
        (let expanded = filter (\<lambda>k. startsWith k arg) AllIndexerKeys in
         if expanded = [] then Inl (Error (''No indexer with prefix: '' @ arg))
         else (case expandArgs rest of Inl e \<Rightarrow> Inl e | Inr others \<Rightarrow> Inr (expanded @ others)))
      else (case expandArgs rest of Inl e \<Rightarrow> Inl e | Inr others \<Rightarrow> Inr (arg # others)))"

text \<open>
  Lines 285-290: duplicates removed, each name paired with its position in the registry
  (\<open>-1\<close> for a name that is not registered), then a stable sort on that position.
\<close>

definition sorted_args :: "string list \<Rightarrow> (int \<times> string) list" where
  "sorted_args expandedArgs =
     sort_key fst (map (\<lambda>name. (indexOf AllIndexerKeys name, name)) (Array_from_Set expandedArgs))"

text \<open>
  Lines 291-297: the loop over the sorted pairs, with the flag \<open>willSetup\<close> and the array
  \<open>indexers\<close> (kept here by name) as its state.
\<close>

fun pick_indexers :: "(int \<times> string) list \<Rightarrow> bool \<Rightarrow> string list \<Rightarrow> error + bool \<times> string list" where
  "pick_indexers [] willSetup indexers = Inr (willSetup, indexers)"
| "pick_indexers ((index, name) # rest) willSetup indexers =
     (if name = ''setup'' \<or> name = ''all'' then pick_indexers rest True indexers
      else if index < 0 then Inl (Error (''Unexpected indexer: '' @ name))
      else pick_indexers rest willSetup (indexers @ [name]))"

text \<open>
  Lines 266-297 together, for a non-empty argument array: the warnings of the \<open>all\<close>
  loop, and either the error thrown or the flag and the selected indexers.
\<close>

definition select_indexers :: "Env \<Rightarrow> string list \<Rightarrow> string list \<times> (error + bool \<times> string list)" where
  "select_indexers env argv =
     (let includesAll = (''all'' \<in> set argv);
          (args, warned) = (if includesAll then push_all env includesAll argv else (argv, []))
      in (warned,
          case expandArgs args of
            Inl e \<Rightarrow> Inl e
          | Inr expandedArgs \<Rightarrow> pick_indexers (sorted_args expandedArgs) False []))"

section \<open>The process (index.ts)\<close>

text \<open>
  A shutdown callback is the closure an indexer's \<open>run\<close> returns: the chain indexer's
  (lines 100-106) or the bound \<open>stop\<close> of a polling indexer (line 126).
\<close>

datatype shutdown = ChainShutdown | PollingShutdown string

text \<open>
  The module's mutable state: the array \<open>shutdowns\<close> (line 36), the flag
  \<open>willSaveCheckpoint\<close> (line 39), whether the declaration of the constant \<open>RUN_AT\<close>
  (line 327) has run, \<open>process.exitCode\<close>, and the effects so far, oldest first.
\<close>

record proc =
  shutdowns :: "shutdown list"
  willSaveCheckpoint :: bool
  RUN_AT :: bool
  exitCode :: "nat option"
  effects :: "effect list"

definition initial :: proc where
  "initial = \<lparr>shutdowns = [], willSaveCheckpoint = True, RUN_AT = False,
              exitCode = None, effects = []\<rparr>"

text \<open>
  What the process is given: the environment \<open>ENV\<close>, the variables of
  \<open>process.env\<close>, the loader of the chain configuration file, which texts the host
  reads as a date, the table \<open>os.constants.signals\<close>, and which awaited calls reject
  (\<open>rejects h e\<close>: the call \<open>e\<close>, made after the effects \<open>h\<close>, rejects).
\<close>

record world =
  ENV :: Env
  env :: "string \<Rightarrow> string option"
  load :: "string \<Rightarrow> error + chain_file"
  date_is_valid :: "string \<Rightarrow> bool"
  signals :: "string \<Rightarrow> nat option"
  rejects :: "effect list \<Rightarrow> effect \<Rightarrow> bool"

type_synonym action = "proc \<Rightarrow> error option \<times> proc"

definition emit :: "effect \<Rightarrow> proc \<Rightarrow> proc" where
  "emit e st = st\<lparr>effects := effects st @ [e]\<rparr>"

definition say :: "effect \<Rightarrow> action" where
  "say e st = (None, emit e st)"

text \<open>An awaited call: it is made, and it completes or rejects.\<close>

definition call :: "world \<Rightarrow> effect \<Rightarrow> action" where
  "call w e st = (if rejects w (effects st) e then Some (Rejected e) else None, emit e st)"

text \<open>Statements in sequence: the first error ends the sequence.\<close>

fun seq :: "action list \<Rightarrow> action" where
  "seq [] st = (None, st)"
| "seq (a # as) st =
     (case a st of
        (None, st') \<Rightarrow> seq as st'
      | (Some e, st') \<Rightarrow> (Some e, st'))"

subsection \<open>Running an indexer (lines 59-129)\<close>

text \<open>The connection keys of each polling indexer (lines 133-242).\<close>

definition connectionKeys :: "string \<Rightarrow> string list" where
  "connectionKeys name =
     (if name = ''ipfs.project_info'' then [''sql'', ''ipfs'', ''notifications'', ''views'']
      else if name = ''ipfs.project_announcement'' then [''sql'', ''ipfs'', ''notifications'']
      else if name = ''ai.logo'' then [''sql'', ''ipfs'', ''s3'', ''notifications'']
      else if name = ''ai.podcast'' then [''sql'', ''s3'', ''notifications'']
      else if name = ''ai.ocr'' \<or> name = ''ai.project_moderation'' then [''sql'', ''notifications'']
      else [''sql'', ''discord'', ''notifications''])"

text \<open>
  Lines 62-107. \<open>config.chain()\<close> is the first statement; the staking sub-indexer is
  started before the chain follow.
\<close>

definition chain_run :: "world \<Rightarrow> proc \<Rightarrow> (error + shutdown) \<times> proc" where
  "chain_run w st =
     (case chain (env w) (load w) of
        Inl e \<Rightarrow> (Inl e, st)
      | Inr cc \<Rightarrow>
          (case seq [call w (Provide [''sql'', ''ogmios'', ''lucid'', ''notifications'', ''views'']),
                     call w GetChainIndexer,
                     call w StakingStart,
                     call w (ChainStart
                       (case CHAIN_INDEX_BEGIN cc of
                          at_point p \<Rightarrow> begin_candidates [p]
                        | b \<Rightarrow> begin_keyword b)
                       (case CHAIN_INDEX_END cc of
                          None \<Rightarrow> None
                        | Some e \<Rightarrow> Some (e, CHAIN_INDEX_END_DELAY cc))),
                     say (ConsoleLog ''<> Chain intersection found:'')] st of
             (Some e, st') \<Rightarrow> (Inl e, st')
           | (None, st') \<Rightarrow> (Inr ChainShutdown, st')))"

text \<open>
  The functions \<open>getContext\<close> of the registry (lines 136-241), by the name of the
  polling indexer. The two \<open>ipfs\<close> indexers have no configuration to read; the
  \<open>ai\<close> indexers read theirs, in the order of the object literal; a \<open>discord\<close>
  indexer reads the configuration and calls \<open>createDiscordAlertContext\<close> with its
  channel.
\<close>

definition alert_channel :: "string \<Rightarrow> discord_config \<Rightarrow> string" where
  "alert_channel name dc =
     (if name = ''discord.project_alert'' then DISCORD_CONTENT_MODERATION_CHANNEL_ID dc
      else if name = ''discord.backing_alert'' then DISCORD_BACKING_ALERT_CHANNEL_ID dc
      else if name = ''discord.withdraw_funds_alert'' then DISCORD_WITHDRAW_FUNDS_ALERT_CHANNEL_ID dc
      else if name = ''discord.delegation_alert'' then DISCORD_DELEGATION_ALERT_CHANNEL_ID dc
      else if name = ''discord.project_update_alert'' then DISCORD_PROJECT_UPDATE_ALERT_CHANNEL_ID dc
      else if name = ''discord.project_moderation_alert'' then DISCORD_CONTENT_MODERATION_CHANNEL_ID dc
      else if name = ''discord.kolour_nft_alert'' then DISCORD_KOLOUR_NFT_ALERT_CHANNEL_ID dc
      else DISCORD_GENESIS_KREATION_NFT_ALERT_CHANNEL_ID dc)"

definition getContext :: "world \<Rightarrow> string \<Rightarrow> proc \<Rightarrow> (error + indexer_context) \<times> proc" where
  "getContext w name st =
     (if name = ''ipfs.project_info'' \<or> name = ''ipfs.project_announcement'' then (Inr Null, st)
      else if name = ''ai.logo'' then
        (andThen (ai (env w)) (\<lambda>cc.
         Inr (AiLogo \<lparr>s3Bucket = AI_S3_BUCKET cc, fetched = {}\<rparr>)), st)
      else if name = ''ai.podcast'' then
        (andThen (ai (env w)) (\<lambda>a.
         andThen (aws (env w)) (\<lambda>s.
         andThen (cardano (env w)) (\<lambda>c.
         Inr (AiPodcast (AI_SERVER_URL a) (ASSETS_S3_BUCKET s) ''podcasts/''
                (if NETWORK c = ''mainnet'' then 1500 else 100))))), st)
      else if name = ''ai.ocr'' \<or> name = ''ai.project_moderation'' then
        (andThen (ai (env w)) (\<lambda>a.
         andThen (ipfs (env w)) (\<lambda>i.
         Inr (AiServer (AI_SERVER_URL a) (IPFS_GATEWAY_URL i)))), st)
      else
        (case discord (env w) (date_is_valid w) of
           Inl e \<Rightarrow> (Inl e, st)
         | Inr dc \<Rightarrow>
             (case call w (CreateDiscordAlertContext (alert_channel name dc)) st of
                (Some e, st') \<Rightarrow> (Inl e, st')
              | (None, st') \<Rightarrow> (Inr (DiscordAlert (alert_channel name dc)), st'))))"

text \<open>
  Lines 122-127 of \<open>wrapPollingIndexer\<close>. The start of a polling indexer is not awaited.
\<close>

definition polling_run :: "world \<Rightarrow> string \<Rightarrow> proc \<Rightarrow> (error + shutdown) \<times> proc" where
  "polling_run w name st =
     (case getContext w name st of
        (Inl e, st1) \<Rightarrow> (Inl e, st1)
      | (Inr context', st1) \<Rightarrow>
          (case seq [call w (Provide (connectionKeys name)),
                     say (PollingStart name context')] st1 of
             (Some e, st') \<Rightarrow> (Inl e, st')
           | (None, st') \<Rightarrow> (Inr (PollingShutdown name), st')))"

definition run :: "world \<Rightarrow> string \<Rightarrow> proc \<Rightarrow> (error + shutdown) \<times> proc" where
  "run w name st = (if name = ''chain'' then chain_run w st else polling_run w name st)"

text \<open>Line 329: each indexer is run in turn, and its callback pushed once it has started.\<close>

fun run_all :: "world \<Rightarrow> string list \<Rightarrow> action" where
  "run_all w [] st = (None, st)"
| "run_all w (name # rest) st =
     (case run w name st of
        (Inl e, st') \<Rightarrow> (Some e, st')
      | (Inr cb, st') \<Rightarrow> run_all w rest (st'\<lparr>shutdowns := shutdowns st' @ [cb]\<rparr>))"

subsection \<open>The exit handler (lines 41-56)\<close>

text \<open>Lines 100-106 and line 126: the flag is read when the callback runs.\<close>

fun run_shutdown :: "world \<Rightarrow> shutdown \<Rightarrow> action" where
  "run_shutdown w ChainShutdown st =
     seq [\<lambda>st. call w (ChainStop True (willSaveCheckpoint st)) st, call w StakingStop] st"
| "run_shutdown w (PollingShutdown name) st = call w (PollingStop name) st"

text \<open>
  The handler is given the signal and an error; of the error only whether it is null is
  used (\<open>has_error\<close>). Its first statement reads \<open>RUN_AT\<close>, which throws until the
  declaration on line 327 has run. The handler is one step of the model: no notification
  is delivered while it waits for a callback.
\<close>

definition set_exit_code :: "world \<Rightarrow> string \<Rightarrow> bool \<Rightarrow> action" where
  "set_exit_code w signal has_error st =
     (None,
      if exitCode st = None \<and> has_error
      then st\<lparr>exitCode := Some (case signals w signal of Some n \<Rightarrow> n | None \<Rightarrow> 1)\<rparr>
      else st)"

definition report_exception :: "string \<Rightarrow> action" where
  "report_exception signal st =
     (None,
      if signal = ''uncaughtException'' then emit (ConsoleError ''!! UNCAUGHT EXCEPTION !!'') st
      else if signal = ''unhandledRejection'' then emit (ConsoleError ''!! UNHANDLED REJECTION !!'') st
      else st)"

definition prexit_handler :: "world \<Rightarrow> string \<Rightarrow> bool \<Rightarrow> action" where
  "prexit_handler w signal has_error st =
     (if \<not> RUN_AT st then (Some (ReferenceError ''RUN_AT''), st)
      else seq ([say (ConsoleWarn ''$ TIME:''), say (ConsoleWarn (''$ EXIT: '' @ signal))]
                @ map (run_shutdown w) (rev (shutdowns st))
                @ [call w ConnectionsCleanup,
                   set_exit_code w signal has_error,
                   report_exception signal,
                   say (ConsoleLog ''=== GOOD BYE ==='')]) st)"

text \<open>
  Modelled from the spec: the module \<open>./prexit\<close> is not among the sources. Of
  \<open>prexit.exit(code)\<close> the spec says that it is an orderly full-process shutdown with
  the given exit code: the exit code is set, and the one shutdown path (the handler
  registered on line 41) runs, with no error.
\<close>

definition prexit_exit :: "world \<Rightarrow> nat \<Rightarrow> action" where
  "prexit_exit w code st = prexit_handler w ''prexit'' False (st\<lparr>exitCode := Some code\<rparr>)"

text \<open>
  Modelled from the spec: \<open>prexit.exit0()\<close> of the same module, which is not among
  the sources. The spec gives the exit code 0 to a clean run with nothing to do: the
  exit that \<open>prexit.exit\<close> makes, with the code 0.
\<close>

definition prexit_exit0 :: "world \<Rightarrow> action" where
  "prexit_exit0 w st = prexit_exit w 0 st"

subsection \<open>The control channel (lines 300-314)\<close>

definition listen_callback :: "world \<Rightarrow> string \<Rightarrow> action" where
  "listen_callback w payload st =
     (if payload = ''reload''
      then prexit_exit w 174 ((emit (ConsoleLog ''Received signal: reload'') st)\<lparr>willSaveCheckpoint := False\<rparr>)
      else say (ConsoleWarn (''Unrecognized signal: '' @ payload)) st)"

subsection \<open>The main program (lines 254-333)\<close>

text \<open>Lines 256-264: the usage, one line per registered indexer.\<close>

definition usage :: "Env \<Rightarrow> effect list" where
  "usage e =
     [ConsoleError ''Arguments:'', ConsoleError ''* all'', ConsoleError ''+ setup'']
     @ map (\<lambda>k. ConsoleError ((if k \<in> set (disabled e) then ''.'' else ''-'') @ '' '' @ k))
           AllIndexerKeys"

text \<open>
  Lines 319-321: \<open>Promise.all\<close> over the setups of all registered indexers. Every setup
  is called; the whole rejects when one does.
\<close>

fun all_setups :: "world \<Rightarrow> string list \<Rightarrow> action" where
  "all_setups w [] st = (None, st)"
| "all_setups w (k # ks) st =
     (case call w (IndexerSetup k) st of
        (r, st') \<Rightarrow>
          (case all_setups w ks st' of
             (r', st'') \<Rightarrow> (case r of Some e \<Rightarrow> Some e | None \<Rightarrow> r', st'')))"

text \<open>Lines 316-325.\<close>

definition setup_phase :: "world \<Rightarrow> action" where
  "setup_phase w =
     seq [call w (Provide [''sql'']),
          call w SetupSchemas,
          all_setups w AllIndexerKeys,
          call w SetupAdminTables,
          call w SetupMigrationTables,
          call w SetupViews]"

text \<open>Line 272.\<close>

definition disabled_warning :: "Env \<Rightarrow> string \<Rightarrow> effect" where
  "disabled_warning e name =
     ConsoleWarn (''['' @ name @ ''] is disabled by default on {'' @ env_name e @ ''}'')"

text \<open>
  How the top level of the module ends: \<open>process.exit(n)\<close> was called, an error was
  thrown, the exit that \<open>prexit.exit0()\<close> asks for, or the indexers run.
\<close>

datatype outcome = Exited nat | Threw error | Exit0 "error option" | Running

definition main :: "world \<Rightarrow> string list \<Rightarrow> outcome \<times> proc" where
  "main w argv =
     (if argv = [] then
        (Exited 1, (initial\<lparr>effects := usage (ENV w)\<rparr>)\<lparr>exitCode := Some 1\<rparr>)
      else
        (case select_indexers (ENV w) argv of
           (warned, selected) \<Rightarrow>
             (let st1 = initial\<lparr>effects :=
                          map (disabled_warning (ENV w)) warned\<rparr>
              in case selected of
                   Inl e \<Rightarrow> (Threw e, st1)
                 | Inr (willSetup, indexers) \<Rightarrow>
                     (case seq (map (\<lambda>name. say (ConsoleLog (''% '' @ name))) indexers
                                @ [call w (ProvideOne ''notifications''), say (Listen ''index'')]
                                @ (if willSetup then [setup_phase w] else [])) st1 of
                        (Some e, st2) \<Rightarrow> (Threw e, st2)
                      | (None, st2) \<Rightarrow>
                          (let st3 = st2\<lparr>RUN_AT := True\<rparr> in
                           if indexers \<noteq> [] then
                             (case run_all w indexers st3 of
                                (Some e, st4) \<Rightarrow> (Threw e, st4)
                              | (None, st4) \<Rightarrow> (Running, st4))
                           else
                             (case seq [say (ConsoleWarn (''No indexer specified, I'' @ [CHR 0x27] @ ''m done!'')),
                                        prexit_exit0 w] st3 of
                                (r, st4) \<Rightarrow> (Exit0 r, st4)))))))"

section \<open>The ai.logo indexer (indexers/ai/logo.ts)\<close>

subsection \<open>setup (lines 25-37)\<close>

text \<open>
  The schema state of the database: the schemas that exist, and the relations by schema
  and name. A table has columns; an index is on columns of a table of its schema; any
  other relation (a view, a sequence) only occupies its name.
\<close>

datatype column_constraint = PRIMARY_KEY | NOT_NULL | NULLABLE

type_synonym column = "string \<times> string \<times> column_constraint"

datatype relation = Table "column list" | Index string "string list" | OtherRelation

record database =
  schemas :: "string set"
  relations :: "string \<times> string \<Rightarrow> relation option"

text \<open>
  \<open>CREATE TABLE IF NOT EXISTS schema.name (columns)\<close>: an error when the schema does
  not exist; nothing is done when a relation of that name exists; else the table is
  created.
\<close>

definition create_table_if_not_exists ::
  "string \<Rightarrow> string \<Rightarrow> column list \<Rightarrow> database \<Rightarrow> error + database" where
  "create_table_if_not_exists sch name cols db =
     (if sch \<notin> schemas db then Inl (SqlError (''schema does not exist: '' @ sch))
      else (case relations db (sch, name) of
              Some _ \<Rightarrow> Inr db
            | None \<Rightarrow> Inr (db\<lparr>relations := (relations db)((sch, name) := Some (Table cols))\<rparr>)))"

text \<open>
  \<open>CREATE INDEX IF NOT EXISTS iname ON schema.tname (columns)\<close>: an error unless
  \<open>schema.tname\<close> is a table with these columns; nothing is done when a relation
  named \<open>iname\<close> exists in the schema; else the index is created there.
\<close>

definition create_index_if_not_exists ::
  "string \<Rightarrow> string \<Rightarrow> string \<Rightarrow> string list \<Rightarrow> database \<Rightarrow> error + database" where
  "create_index_if_not_exists iname sch tname cols db =
     (case relations db (sch, tname) of
        None \<Rightarrow> Inl (SqlError (''relation does not exist: '' @ tname))
      | Some (Table tcols) \<Rightarrow>
          if \<not> set cols \<subseteq> fst ` set tcols then Inl (SqlError ''column does not exist'')
          else (case relations db (sch, iname) of
                  Some _ \<Rightarrow> Inr db
                | None \<Rightarrow> Inr (db\<lparr>relations := (relations db)((sch, iname) := Some (Index tname cols))\<rparr>))
      | Some _ \<Rightarrow> Inl (SqlError (''not a table: '' @ tname)))"

text \<open>
  The two statements of the setup, each awaited and committed on its own: the result is
  the error of the first statement that fails, if any, and the schema state reached.
  The wrapper \<open>$setup\<close> of the framework passes the connections to this function.
\<close>

definition aiLogoIndexer_setup :: "database \<Rightarrow> error option \<times> database" where
  "aiLogoIndexer_setup db =
     (case create_table_if_not_exists ''ai'' ''logo''
             [(''cid'', ''TEXT'', PRIMARY_KEY),
              (''letter'', ''varchar(1)'', NOT_NULL),
              (''etag'', ''TEXT'', NULLABLE)] db of
        Inl e \<Rightarrow> (Some e, db)
      | Inr db1 \<Rightarrow>
          (case create_index_if_not_exists ''logo_letter_index'' ''ai'' ''logo'' [''letter''] db1 of
             Inl e \<Rightarrow> (Some e, db1)
           | Inr db2 \<Rightarrow> (None, db2)))"

subsection \<open>initialize (lines 53-63)\<close>

text \<open>
  A row of the table \<open>ai.logo\<close>: \<open>cid\<close>, \<open>letter\<close> and the nullable \<open>etag\<close>.
\<close>

type_synonym logo_row = "string \<times> string \<times> string option"

text \<open>\<open>SELECT etag FROM ai.logo WHERE etag IS NOT NULL\<close> on the rows of the table.\<close>

definition select_etags :: "logo_row list \<Rightarrow> string list" where
  "select_etags rows = concat (map (\<lambda>(cid, letter, etag). case etag of Some e \<Rightarrow> [e] | None \<Rightarrow> []) rows)"

text \<open>
  The query is given as its outcome: the rows of the table, or the error it rejects
  with. Each selected value is added to the set.
\<close>

definition initialize :: "error + logo_row list \<Rightarrow> AiLogoContext \<Rightarrow> error + AiLogoContext" where
  "initialize table ctx =
     (case table of
        Inl e \<Rightarrow> Inl e
      | Inr rows \<Rightarrow> Inr (ctx\<lparr>fetched := fold insert (select_etags rows) (fetched ctx)\<rparr>))"

subsection \<open>fetch (lines 65-71 and 107-139)\<close>

record s3_object =
  Key :: "string option"
  ETag :: "string option"

record list_command =
  Bucket :: string
  Prefix :: string
  ContinuationToken :: "string option"

record list_response =
  Contents :: "s3_object list option"
  NextContinuationToken :: "string option"

record task =
  key :: string
  etag :: "string option"

type_synonym s3 = "list_command \<Rightarrow> error + list_response"

definition LOGO_S3_PREFIX :: string where
  "LOGO_S3_PREFIX = ''logos/''"

text \<open>Lines 125-131: the loop over the objects of one page.\<close>

fun scan_contents :: "string set \<Rightarrow> s3_object list \<Rightarrow> nat \<times> task list \<Rightarrow> error + nat \<times> task list" where
  "scan_contents fetched' [] acc = Inr acc"
| "scan_contents fetched' (obj # rest) (skipped, tasks) =
     (case Key obj of
        None \<Rightarrow> Inl (Assertion ''S3 Object Key must be defined'')
      | Some k \<Rightarrow>
          if k = [] then Inl (Assertion ''S3 Object Key must be defined'')
          else (case ETag obj of
                  None \<Rightarrow> scan_contents fetched' rest (skipped, tasks @ [\<lparr>key = k, etag = None\<rparr>])
                | Some e \<Rightarrow>
                    if e \<notin> fetched'
                    then scan_contents fetched' rest (skipped, tasks @ [\<lparr>key = k, etag = Some e\<rparr>])
                    else scan_contents fetched' rest (skipped + 1, tasks)))"

text \<open>
  Lines 115-137: \<open>fetchSinglePage\<close> and the loop that follows the continuation tokens.
  The listing need not end, so the loop has fuel, one unit for each page requested:
  \<open>None\<close> is a loop that has not returned within the fuel.
\<close>

fun fetchPages ::
  "nat \<Rightarrow> s3 \<Rightarrow> string \<Rightarrow> string set \<Rightarrow> string option \<Rightarrow> nat \<times> task list
     \<Rightarrow> (error + nat \<times> task list) option" where
  "fetchPages 0 s3 bucket fetched' continuationToken acc = None"
| "fetchPages (Suc n) s3 bucket fetched' continuationToken acc =
     (case s3 \<lparr>Bucket = bucket, Prefix = LOGO_S3_PREFIX, ContinuationToken = continuationToken\<rparr> of
        Inl e \<Rightarrow> Some (Inl e)
      | Inr res \<Rightarrow>
          (case Contents res of
             None \<Rightarrow> Some (Inl (Assertion ''S3 Contents must be defined''))
           | Some contents \<Rightarrow>
               (case scan_contents fetched' contents acc of
                  Inl e \<Rightarrow> Some (Inl e)
                | Inr acc' \<Rightarrow>
                    (case NextContinuationToken res of
                       None \<Rightarrow> Some (Inr acc')
                     | Some t \<Rightarrow> fetchPages n s3 bucket fetched' (Some t) acc'))))"

definition fetchTasksFromS3 ::
  "nat \<Rightarrow> s3 \<Rightarrow> string \<Rightarrow> string set \<Rightarrow> (error + nat \<times> task list) option" where
  "fetchTasksFromS3 n s3 bucket fetched' = fetchPages n s3 bucket fetched' None (0, [])"

text \<open>
  Lines 65-71: the tasks and \<open>continue: false\<close>; the number of skipped objects is
  logged.
\<close>

record fetch_result =
  tasks :: "task list"
  continue :: bool

definition fetch :: "nat \<Rightarrow> s3 \<Rightarrow> AiLogoContext \<Rightarrow> (error + nat \<times> fetch_result) option" where
  "fetch n s3 ctx =
     (case fetchTasksFromS3 n s3 (s3Bucket ctx) (fetched ctx) of
        None \<Rightarrow> None
      | Some (Inl e) \<Rightarrow> Some (Inl e)
      | Some (Inr (skipped, ts)) \<Rightarrow> Some (Inr (skipped, \<lparr>tasks = ts, continue = False\<rparr>)))"

text \<open>
  The objects a listing returns, page after page, for the statement of what \<open>fetch\<close>
  does with them: \<open>None\<close> when the listing does not end within \<open>n\<close> pages, or a
  request fails, or a page has no contents.
\<close>

fun listed :: "nat \<Rightarrow> s3 \<Rightarrow> string \<Rightarrow> string option \<Rightarrow> s3_object list option" where
  "listed 0 s3 bucket continuationToken = None"
| "listed (Suc n) s3 bucket continuationToken =
     (case s3 \<lparr>Bucket = bucket, Prefix = LOGO_S3_PREFIX, ContinuationToken = continuationToken\<rparr> of
        Inl e \<Rightarrow> None
      | Inr res \<Rightarrow>
          (case Contents res of
             None \<Rightarrow> None
           | Some contents \<Rightarrow>
               (case NextContinuationToken res of
                  None \<Rightarrow> Some contents
                | Some t \<Rightarrow> map_option ((@) contents) (listed n s3 bucket (Some t)))))"

section \<open>Notions used in the properties\<close>

text \<open>
  What one argument stands for: the registered names that start with it when it ends in a
  dot, else itself. And the names an argument array stands for, where \<open>all\<close> adds the
  registered names that are not disabled.
\<close>

definition expansion :: "string \<Rightarrow> string list" where
  "expansion arg =
     (if endsWith arg ''.'' then filter (\<lambda>k. startsWith k arg) AllIndexerKeys else [arg])"

definition named :: "Env \<Rightarrow> string list \<Rightarrow> string set" where
  "named e argv =
     (\<Union>arg \<in> set argv. set (expansion arg))
     \<union> (if ''all'' \<in> set argv then {k \<in> set AllIndexerKeys. k \<notin> set (disabled e)} else {})"

text \<open>The calls that start an indexer, and the calls that stop one or release the connections.\<close>

definition is_start :: "effect \<Rightarrow> bool" where
  "is_start e =
     (case e of StakingStart \<Rightarrow> True | ChainStart _ _ \<Rightarrow> True | PollingStart _ _ \<Rightarrow> True | _ \<Rightarrow> False)"

definition is_release :: "effect \<Rightarrow> bool" where
  "is_release e =
     (case e of
        ChainStop _ _ \<Rightarrow> True | StakingStop \<Rightarrow> True | PollingStop _ \<Rightarrow> True
      | ConnectionsCleanup \<Rightarrow> True | _ \<Rightarrow> False)"

text \<open>The effects made from one state to a later one.\<close>

definition since :: "proc \<Rightarrow> proc \<Rightarrow> effect list" where
  "since st st' = drop (length (effects st)) (effects st')"

text \<open>A step that makes no start call and leaves the rest of the state as it is.\<close>

definition quiet :: "proc \<Rightarrow> proc \<Rightarrow> bool" where
  "quiet st st' =
     ((\<exists>new. effects st' = effects st @ new \<and> list_all (\<lambda>e. \<not> is_start e) new)
      \<and> shutdowns st' = shutdowns st \<and> willSaveCheckpoint st' = willSaveCheckpoint st
      \<and> RUN_AT st' = RUN_AT st \<and> exitCode st' = exitCode st)"

text \<open>A step that only adds effects, each with the property \<open>P\<close>.\<close>

definition grows :: "(effect \<Rightarrow> bool) \<Rightarrow> proc \<Rightarrow> proc \<Rightarrow> bool" where
  "grows P st st' =
     ((\<exists>new. effects st' = effects st @ new \<and> list_all P new)
      \<and> shutdowns st' = shutdowns st \<and> willSaveCheckpoint st' = willSaveCheckpoint st
      \<and> RUN_AT st' = RUN_AT st \<and> exitCode st' = exitCode st)"

text \<open>The calls of the complete setup phase, in order.\<close>

definition setup_effects :: "effect list" where
  "setup_effects =
     [Provide [''sql''], SetupSchemas] @ map IndexerSetup AllIndexerKeys
     @ [SetupAdminTables, SetupMigrationTables, SetupViews]"

text \<open>
  The callback that the run of an indexer returns, and the calls a callback makes when
  every one of them completes, given the value of the flag \<open>willSaveCheckpoint\<close>.
\<close>

definition shutdown_of :: "string \<Rightarrow> shutdown" where
  "shutdown_of name = (if name = ''chain'' then ChainShutdown else PollingShutdown name)"

fun stop_calls :: "bool \<Rightarrow> shutdown \<Rightarrow> effect list" where
  "stop_calls flag ChainShutdown = [ChainStop True flag, StakingStop]"
| "stop_calls flag (PollingShutdown name) = [PollingStop name]"

text \<open>\<open>start_of name e\<close>: the call \<open>e\<close> starts the indexer \<open>name\<close>.\<close>

definition start_of :: "string \<Rightarrow> effect \<Rightarrow> bool" where
  "start_of name e =
     (case e of
        StakingStart \<Rightarrow> name = ''chain''
      | ChainStart _ _ \<Rightarrow> name = ''chain''
      | PollingStart k _ \<Rightarrow> k = name \<and> name \<noteq> ''chain''
      | _ \<Rightarrow> False)"

text \<open>
  \<open>configured w name\<close>: the configuration that the run of the indexer \<open>name\<close> reads is
  there, so that \<open>config.chain()\<close>, or the \<open>getContext\<close> of a polling indexer, does
  not throw.
\<close>

definition configured :: "world \<Rightarrow> string \<Rightarrow> bool" where
  "configured w name =
     (if name = ''chain'' then (case chain (env w) (load w) of Inr _ \<Rightarrow> True | Inl _ \<Rightarrow> False)
      else (case fst (getContext w name initial) of Inr _ \<Rightarrow> True | Inl _ \<Rightarrow> False))"

text \<open>A process to evaluate the model on: no call rejects, and a bootstrap point is configured.\<close>

definition example_world :: world where
  "example_world =
     \<lparr>ENV = development,
      env = [''CHAIN_INDEX_CONFIG'' \<mapsto> ''chain.yaml''],
      load = (\<lambda>path. Inr \<lparr>bootstrap = [\<lparr>slot = Finite 1, hash = ''h''\<rparr>]\<rparr>),
      date_is_valid = (\<lambda>text. False),
      signals = [''SIGINT'' \<mapsto> 2, ''SIGTERM'' \<mapsto> 15],
      rejects = (\<lambda>h e. False)\<rparr>"

text \<open>The state after the chain indexer and one polling indexer have started.\<close>

definition started_example :: proc where
  "started_example =
     snd (run_all example_world [''chain'', ''ipfs.project_info''] (initial\<lparr>RUN_AT := True\<rparr>))"

text \<open>
  \<open>chain_stop_with flag e\<close>: if \<open>e\<close> is a stop call of the chain indexer, it is
  \<open>stop({immediate: true, saveCheckpoint: flag})\<close>.
\<close>

definition chain_stop_with :: "bool \<Rightarrow> effect \<Rightarrow> bool" where
  "chain_stop_with flag e = (case e of ChainStop i s \<Rightarrow> i \<and> s = flag | _ \<Rightarrow> True)"

text \<open>
  The decimal text of a natural number: the form of the slot in \<open>slot:hash\<close>.
\<close>

fun decimal :: "nat \<Rightarrow> string" where
  "decimal n =
     (if n < 10 then [''0123456789'' ! n]
      else decimal (n div 10) @ [''0123456789'' ! (n mod 10)])"

declare decimal.simps [simp del]

text \<open>
  Variants of the example: \<open>CHAIN_INDEX_BEGIN\<close> set to a given text, and a configuration
  without bootstrap points.
\<close>

definition begin_world :: "string \<Rightarrow> world" where
  "begin_world raw = example_world\<lparr>env := (env example_world)(''CHAIN_INDEX_BEGIN'' \<mapsto> raw)\<rparr>"

definition no_bootstrap_world :: world where
  "no_bootstrap_world = example_world\<lparr>load := (\<lambda>path. Inr \<lparr>bootstrap = []\<rparr>)\<rparr>"

text \<open>The example with the configuration of the \<open>ai\<close> indexers set.\<close>

definition ai_world :: world where
  "ai_world =
     example_world\<lparr>env := (env example_world)(''AI_SERVER_URL'' \<mapsto> ''http://ai.example'',
                                                 ''AI_S3_BUCKET'' \<mapsto> ''bucket'')\<rparr>"

text \<open>
  For the statement of what \<open>fetch\<close> does: whether the ETag of a listed object is in
  the fetched set, and the task emitted for an object.
\<close>

definition is_fetched :: "string set \<Rightarrow> s3_object \<Rightarrow> bool" where
  "is_fetched F obj = (case ETag obj of Some e \<Rightarrow> e \<in> F | None \<Rightarrow> False)"

definition task_of :: "s3_object \<Rightarrow> task" where
  "task_of obj = \<lparr>key = (case Key obj of Some k \<Rightarrow> k | None \<Rightarrow> []), etag = ETag obj\<rparr>"

text \<open>
  A listing of three objects on two pages, a table with two rows, and a schema state in
  which only the schema \<open>ai\<close> exists.
\<close>

definition example_s3 :: s3 where
  "example_s3 cmd =
     (case ContinuationToken cmd of
        None \<Rightarrow>
          Inr \<lparr>Contents = Some [\<lparr>Key = Some ''logos/a/A/1.png'', ETag = Some ''e1''\<rparr>,
                                 \<lparr>Key = Some ''logos/a/B/2.png'', ETag = Some ''e2''\<rparr>],
               NextContinuationToken = Some ''page2''\<rparr>
      | Some t \<Rightarrow>
          Inr \<lparr>Contents = Some [\<lparr>Key = Some ''logos/a/C/3.png'', ETag = None\<rparr>],
               NextContinuationToken = None\<rparr>)"

definition example_rows :: "logo_row list" where
  "example_rows = [(''cid1'', ''A'', Some ''e1''), (''cid2'', ''B'', None)]"

definition example_database :: database where
  "example_database = \<lparr>schemas = {''ai''}, relations = (\<lambda>name. None)\<rparr>"

definition example_context :: AiLogoContext where
  "example_context = \<lparr>s3Bucket = ''bucket'', fetched = {''e1''}\<rparr>"

section \<open>Properties of the argument processing\<close>

lemma set_Array_from_Set_aux:
  "set (fold (\<lambda>x acc. if x \<in> set acc then acc else acc @ [x]) xs a) = set a \<union> set xs"
  by (induction xs arbitrary: a) auto

lemma distinct_Array_from_Set_aux:
  "distinct a \<Longrightarrow> distinct (fold (\<lambda>x acc. if x \<in> set acc then acc else acc @ [x]) xs a)"
  by (induction xs arbitrary: a) auto

lemma set_Array_from_Set [simp]: "set (Array_from_Set xs) = set xs"
  by (simp add: Array_from_Set_def set_Array_from_Set_aux)

lemma distinct_Array_from_Set [simp]: "distinct (Array_from_Set xs)"
  by (simp add: Array_from_Set_def distinct_Array_from_Set_aux)

lemma indexOf_ge: "- 1 \<le> indexOf xs x"
  by (induction xs) (auto simp: Let_def)

lemma indexOf_neg_iff: "indexOf xs x < 0 \<longleftrightarrow> x \<notin> set xs"
proof (induction xs)
  case Nil then show ?case by simp
next
  case (Cons y ys)
  from indexOf_ge [of ys x] have "\<not> indexOf ys x < 0 \<Longrightarrow> \<not> indexOf ys x + 1 < 0" by arith
  with Cons show ?case by (auto simp: Let_def)
qed

lemma indexOf_Cons_later: "z \<in> set ys \<Longrightarrow> y \<noteq> z \<Longrightarrow> indexOf (y # ys) z = indexOf ys z + 1"
  by (simp add: Let_def indexOf_neg_iff)

lemma indexOf_nth: "x \<in> set xs \<Longrightarrow> nat (indexOf xs x) < length xs \<and> xs ! nat (indexOf xs x) = x"
proof (induction xs)
  case Nil then show ?case by simp
next
  case (Cons y ys)
  show ?case
  proof (cases "y = x")
    case True then show ?thesis by simp
  next
    case False
    with Cons.prems have in_ys: "x \<in> set ys" by simp
    then have nn: "0 \<le> indexOf ys x" using indexOf_neg_iff [of ys x] by simp
    from Cons.IH [OF in_ys] nn False in_ys show ?thesis
      by (simp add: indexOf_Cons_later nat_add_distrib)
  qed
qed

lemma indexOf_inj: "x \<in> set xs \<Longrightarrow> y \<in> set xs \<Longrightarrow> indexOf xs x = indexOf xs y \<Longrightarrow> x = y"
  using indexOf_nth by metis

lemma indexOf_filter_sorted:
  "distinct xs \<Longrightarrow> sorted (map (indexOf xs) (filter P xs))"
proof (induction xs)
  case Nil then show ?case by simp
next
  case (Cons y ys)
  have eq: "indexOf (y # ys) z = indexOf ys z + 1" if "z \<in> set ys" for z
  proof -
    from that Cons.prems have "y \<noteq> z" by auto
    with that show ?thesis by (rule indexOf_Cons_later)
  qed
  have m: "map (indexOf (y # ys)) (filter P ys) = map (\<lambda>z. indexOf ys z + 1) (filter P ys)"
    by (rule map_cong) (simp_all add: eq del: indexOf.simps)
  have s0: "sorted (map (indexOf ys) (filter P ys))" using Cons by simp
  have "sorted (map (\<lambda>i. i + 1) (map (indexOf ys) (filter P ys)))"
    using s0 by (simp only: sorted_map) (simp add: sorted_wrt_iff_nth_less)
  then have "sorted (map (\<lambda>z. indexOf ys z + 1) (filter P ys))"
    by (simp only: map_map comp_def)
  then have s: "sorted (map (indexOf (y # ys)) (filter P ys))"
    by (simp only: m)
  have pos: "0 \<le> i" if "i \<in> set (map (indexOf (y # ys)) (filter P ys))" for i
  proof -
    from that obtain z where z: "z \<in> set ys" "i = indexOf (y # ys) z" by auto
    then have "\<not> indexOf (y # ys) z < 0" by (simp only: indexOf_neg_iff) simp
    with z show ?thesis by simp
  qed
  have hd0: "indexOf (y # ys) y = 0" by simp
  show ?case
  proof (cases "P y")
    case True
    then have "map (indexOf (y # ys)) (filter P (y # ys)) = 0 # map (indexOf (y # ys)) (filter P ys)"
      by (simp only: filter.simps list.map hd0 if_True)
    with s pos show ?thesis by (simp only: sorted_simps) blast
  next
    case False
    then have "map (indexOf (y # ys)) (filter P (y # ys)) = map (indexOf (y # ys)) (filter P ys)"
      by (simp only: filter.simps if_False)
    with s show ?thesis by (simp only:)
  qed
qed

lemma pick_indexers_Inr:
  "pick_indexers xs w ix = Inr (w', ix') \<Longrightarrow>
     ix' = ix @ map snd (filter (\<lambda>p. snd p \<noteq> ''setup'' \<and> snd p \<noteq> ''all'') xs)
     \<and> w' = (w \<or> (\<exists>p \<in> set xs. snd p = ''setup'' \<or> snd p = ''all''))
     \<and> (\<forall>p \<in> set xs. snd p = ''setup'' \<or> snd p = ''all'' \<or> 0 \<le> fst p)"
proof (induction xs w ix rule: pick_indexers.induct)
  case (1 w ix) then show ?case by simp
next
  case (2 index name rest w ix)
  then show ?case by (auto split: if_splits)
qed

lemma pick_indexers_Inl:
  "pick_indexers xs w ix = Inl e \<Longrightarrow>
     \<exists>p \<in> set xs. snd p \<noteq> ''setup'' \<and> snd p \<noteq> ''all'' \<and> fst p < 0 \<and> e = Error (''Unexpected indexer: '' @ snd p)"
proof (induction xs w ix rule: pick_indexers.induct)
  case (1 w ix) then show ?case by simp
next
  case (2 index name rest w ix)
  then show ?case by (auto split: if_splits)
qed

lemma pick_indexers_total:
  "(\<forall>p \<in> set xs. snd p = ''setup'' \<or> snd p = ''all'' \<or> 0 \<le> fst p) \<Longrightarrow> \<exists>r. pick_indexers xs w ix = Inr r"
proof (induction xs w ix rule: pick_indexers.induct)
  case (1 w ix) then show ?case by simp
next
  case (2 index name rest w ix)
  then show ?case by auto
qed

lemma distinct_AllIndexerKeys: "distinct AllIndexerKeys"
  by (simp add: AllIndexerKeys_def)

lemma special_not_registered: "''setup'' \<notin> set AllIndexerKeys" "''all'' \<notin> set AllIndexerKeys"
  by (simp_all add: AllIndexerKeys_def)

lemma expandArgs_Inr:
  "expandArgs args = Inr xs \<Longrightarrow>
     xs = concat (map expansion args) \<and> (\<forall>arg \<in> set args. expansion arg \<noteq> [])"
proof (induction args arbitrary: xs)
  case Nil then show ?case by simp
next
  case (Cons a args)
  then show ?case
    by (auto simp: expansion_def Let_def split: if_splits sum.splits)
qed

lemma expandArgs_Inl:
  "expandArgs args = Inl e \<Longrightarrow>
     \<exists>arg \<in> set args. endsWith arg ''.'' \<and> expansion arg = [] \<and> e = Error (''No indexer with prefix: '' @ arg)"
proof (induction args)
  case Nil then show ?case by simp
next
  case (Cons a args)
  then show ?case
    by (auto simp: expansion_def Let_def split: if_splits sum.splits)
qed

lemma expandArgs_fails:
  "arg \<in> set args \<Longrightarrow> expansion arg = [] \<Longrightarrow> \<exists>e. expandArgs args = Inl e"
proof (induction args)
  case Nil then show ?case by simp
next
  case (Cons a args)
  then show ?case
    by (cases "expandArgs args") (auto simp: expansion_def Let_def split: if_splits)
qed

lemma push_all_aux:
  "fold (\<lambda>name (args, warned).
             if name = ''chain'' \<and> \<not> True then (args, warned)
             else if name \<in> D then (args, warned @ [name])
             else (args @ [name], warned)) ks (a, ws)
   = (a @ filter (\<lambda>k. k \<notin> D) ks, ws @ filter (\<lambda>k. k \<in> D) ks)"
  by (induction ks arbitrary: a ws) auto

lemma push_all_True:
  "push_all e True args =
     (args @ filter (\<lambda>k. k \<notin> set (disabled e)) AllIndexerKeys,
      filter (\<lambda>k. k \<in> set (disabled e)) AllIndexerKeys)"
  unfolding push_all_def using push_all_aux [of "set (disabled e)" AllIndexerKeys args "[]"] by simp

lemma sorted_args_pick:
  assumes "pick_indexers (sorted_args E) False [] = Inr (ws, names)"
  shows "names = filter (\<lambda>k. k \<in> set E) AllIndexerKeys"
    and "ws = (''setup'' \<in> set E \<or> ''all'' \<in> set E)"
    and "set E \<subseteq> {''setup'', ''all''} \<union> set AllIndexerKeys"
proof -
  let ?K = AllIndexerKeys
  let ?idx = "indexOf ?K"
  let ?M = "map (\<lambda>name. (?idx name, name)) (Array_from_Set E)"
  let ?S = "sort_key fst ?M"
  let ?Q = "\<lambda>p :: int \<times> string. snd p \<noteq> ''setup'' \<and> snd p \<noteq> ''all''"
  from pick_indexers_Inr [OF assms [unfolded sorted_args_def]]
  have names: "names = map snd (filter ?Q ?S)"
    and ws: "ws = (\<exists>p \<in> set ?S. snd p = ''setup'' \<or> snd p = ''all'')"
    and ok: "\<forall>p \<in> set ?S. snd p = ''setup'' \<or> snd p = ''all'' \<or> 0 \<le> fst p"
    by simp_all
  have setS: "set ?S = (\<lambda>name. (?idx name, name)) ` set E" by simp
  show "ws = (''setup'' \<in> set E \<or> ''all'' \<in> set E)"
    unfolding ws setS by auto
  show sub: "set E \<subseteq> {''setup'', ''all''} \<union> set ?K"
  proof
    fix x assume "x \<in> set E"
    then have "(?idx x, x) \<in> set ?S" unfolding setS by simp
    with ok have "x = ''setup'' \<or> x = ''all'' \<or> 0 \<le> ?idx x" by fastforce
    then show "x \<in> {''setup'', ''all''} \<union> set ?K"
      using indexOf_neg_iff [of ?K x] by auto
  qed
  have fst_idx: "\<forall>p \<in> set ?S. fst p = ?idx (snd p)" unfolding setS by auto
  have set_names: "set names = set E \<inter> set ?K"
    unfolding names using sub special_not_registered by (auto simp: setS image_iff)
  let ?R = "filter (\<lambda>k. k \<in> set E) ?K"
  have "map ?idx names = map fst (filter ?Q ?S)"
    unfolding names map_map by (rule map_cong) (use fst_idx in auto)
  moreover have "sorted (map fst (filter ?Q ?S))"
    by (rule sorted_filter) simp
  ultimately have s1: "sorted (map ?idx names)" by simp
  have "distinct (map snd ?S)"
  proof -
    have "distinct ?M"
      by (simp add: distinct_map inj_on_def)
    then have "distinct ?S" by simp
    moreover have "inj_on snd (set ?S)"
      unfolding setS by (auto simp: inj_on_def)
    ultimately show ?thesis by (simp only: distinct_map)
  qed
  then have dn: "distinct names" unfolding names by (rule distinct_map_filter)
  have inj: "inj_on ?idx (set ?K)"
    by (rule inj_onI) (rule indexOf_inj)
  have d1: "distinct (map ?idx names)"
    using dn inj set_names by (auto simp: distinct_map intro: inj_on_subset)
  have s2: "sorted (map ?idx ?R)"
    by (rule indexOf_filter_sorted) (rule distinct_AllIndexerKeys)
  have d2: "distinct (map ?idx ?R)"
    using distinct_AllIndexerKeys inj by (auto simp: distinct_map intro: inj_on_subset)
  have "set (map ?idx names) = set (map ?idx ?R)"
    using set_names by auto
  with s1 d1 s2 d2 have "map ?idx names = map ?idx ?R"
    by (rule sorted_distinct_set_unique)
  moreover have "inj_on ?idx (set names \<union> set ?R)"
    using inj set_names by (auto intro: inj_on_subset)
  ultimately show "names = ?R" by (rule map_inj_on)
qed

lemma keys_no_dot: "k \<in> set AllIndexerKeys \<Longrightarrow> \<not> endsWith k ''.''"
  by (auto simp: AllIndexerKeys_def endsWith_def)

lemma expansion_key: "k \<in> set AllIndexerKeys \<Longrightarrow> expansion k = [k]"
  by (simp add: expansion_def keys_no_dot)

lemma expansion_subset: "endsWith arg ''.'' \<Longrightarrow> set (expansion arg) \<subseteq> set AllIndexerKeys"
  by (auto simp: expansion_def)

lemma special_no_dot: "\<not> endsWith ''setup'' ''.''" "\<not> endsWith ''all'' ''.''"
  by (simp_all add: endsWith_def)

lemma select_indexers_Inr:
  assumes "select_indexers e argv = (warned, Inr (ws, names))"
  shows "names = filter (\<lambda>k. k \<in> named e argv) AllIndexerKeys"
    and "ws = (''setup'' \<in> set argv \<or> ''all'' \<in> set argv)"
    and "named e argv \<subseteq> {''setup'', ''all''} \<union> set AllIndexerKeys"
    and "\<forall>arg \<in> set argv. expansion arg \<noteq> []"
proof -
  let ?extra = "if ''all'' \<in> set argv then filter (\<lambda>k. k \<notin> set (disabled e)) AllIndexerKeys else []"
  let ?args = "argv @ ?extra"
  have args: "(if ''all'' \<in> set argv then push_all e (''all'' \<in> set argv) argv else (argv, []))
        = (?args, if ''all'' \<in> set argv then filter (\<lambda>k. k \<in> set (disabled e)) AllIndexerKeys else [])"
    by (simp add: push_all_True)
  from assms obtain E where E: "expandArgs ?args = Inr E"
    and pick: "pick_indexers (sorted_args E) False [] = Inr (ws, names)"
    unfolding select_indexers_def Let_def args by (auto split: sum.splits)
  from expandArgs_Inr [OF E] have Eeq: "E = concat (map expansion ?args)"
    and ne: "\<forall>arg \<in> set ?args. expansion arg \<noteq> []" by simp_all
  have setE: "set E = named e argv"
    unfolding Eeq named_def by (auto simp: expansion_key)
  from sorted_args_pick [OF pick] setE
  show "names = filter (\<lambda>k. k \<in> named e argv) AllIndexerKeys"
    and sub: "named e argv \<subseteq> {''setup'', ''all''} \<union> set AllIndexerKeys"
    by simp_all
  from ne show "\<forall>arg \<in> set argv. expansion arg \<noteq> []" by simp
  have "ws = (''setup'' \<in> named e argv \<or> ''all'' \<in> named e argv)"
    using sorted_args_pick(2) [OF pick] setE by simp
  also have "\<dots> = (''setup'' \<in> set argv \<or> ''all'' \<in> set argv)"
  proof -
    have "s \<in> named e argv \<longleftrightarrow> s \<in> set argv" if "s = ''setup'' \<or> s = ''all''" for s
    proof
      assume "s \<in> named e argv"
      then consider arg where "arg \<in> set argv" "s \<in> set (expansion arg)" | "s \<in> set AllIndexerKeys"
        unfolding named_def by (auto split: if_splits)
      then show "s \<in> set argv"
      proof cases
        case 1
        show ?thesis
        proof (cases "endsWith arg ''.''")
          case True
          with 1 expansion_subset have "s \<in> set AllIndexerKeys" by blast
          with that special_not_registered show ?thesis by auto
        next
          case False
          with 1 show ?thesis by (simp add: expansion_def)
        qed
      next
        case 2
        with that special_not_registered show ?thesis by auto
      qed
    next
      assume "s \<in> set argv"
      moreover from that have "expansion s = [s]" using special_no_dot by (auto simp: expansion_def)
      ultimately show "s \<in> named e argv" unfolding named_def by force
    qed
    then show ?thesis by simp
  qed
  finally show "ws = (''setup'' \<in> set argv \<or> ''all'' \<in> set argv)" .
qed

lemma select_indexers_Inl:
  assumes "select_indexers e argv = (warned, Inl err)"
  shows "(\<exists>arg \<in> set argv. endsWith arg ''.'' \<and> expansion arg = [] \<and> err = Error (''No indexer with prefix: '' @ arg))
       \<or> (\<exists>arg \<in> set argv. \<not> endsWith arg ''.'' \<and> arg \<notin> {''setup'', ''all''} \<union> set AllIndexerKeys
             \<and> err = Error (''Unexpected indexer: '' @ arg))"
proof -
  let ?extra = "if ''all'' \<in> set argv then filter (\<lambda>k. k \<notin> set (disabled e)) AllIndexerKeys else []"
  let ?args = "argv @ ?extra"
  have args: "(if ''all'' \<in> set argv then push_all e (''all'' \<in> set argv) argv else (argv, []))
        = (?args, if ''all'' \<in> set argv then filter (\<lambda>k. k \<in> set (disabled e)) AllIndexerKeys else [])"
    by (simp add: push_all_True)
  from assms consider "expandArgs ?args = Inl err"
    | E where "expandArgs ?args = Inr E" "pick_indexers (sorted_args E) False [] = Inl err"
    unfolding select_indexers_def Let_def args by (auto split: sum.splits)
  then show ?thesis
  proof cases
    case 1
    from expandArgs_Inl [OF 1] obtain arg where a: "arg \<in> set ?args" "endsWith arg ''.''"
      "expansion arg = []" "err = Error (''No indexer with prefix: '' @ arg)" by blast
    from a(1,2) keys_no_dot have "arg \<in> set argv" by (auto split: if_splits)
    with a show ?thesis by blast
  next
    case 2
    from expandArgs_Inr [OF 2(1)] have Eeq: "E = concat (map expansion ?args)" by simp
    from pick_indexers_Inl [OF 2(2)] obtain p where p: "p \<in> set (sorted_args E)"
      "snd p \<noteq> ''setup''" "snd p \<noteq> ''all''" "fst p < 0" "err = Error (''Unexpected indexer: '' @ snd p)"
      by blast
    from p(1) have "snd p \<in> set E" "fst p = indexOf AllIndexerKeys (snd p)"
      unfolding sorted_args_def by auto
    with p(4) have notk: "snd p \<notin> set AllIndexerKeys" "snd p \<in> set E"
      using indexOf_neg_iff [of AllIndexerKeys "snd p"] by simp_all
    then obtain arg where arg: "arg \<in> set ?args" "snd p \<in> set (expansion arg)"
      unfolding Eeq by auto
    with notk(1) expansion_subset have nd: "\<not> endsWith arg ''.''" by blast
    with arg(2) have "arg = snd p" by (simp add: expansion_def)
    with arg(1) notk(1) have "snd p \<in> set argv" by (auto split: if_splits)
    with nd \<open>arg = snd p\<close> notk(1) p(2,3,5) show ?thesis by auto
  qed
qed

lemma select_indexers_fails:
  assumes "arg \<in> set argv"
    and "(endsWith arg ''.'' \<and> expansion arg = []) \<or>
         (\<not> endsWith arg ''.'' \<and> arg \<notin> {''setup'', ''all''} \<union> set AllIndexerKeys)"
  shows "\<exists>warned err. select_indexers e argv = (warned, Inl err)"
proof (cases "select_indexers e argv")
  case (Pair warned sel)
  show ?thesis
  proof (cases sel)
    case (Inl err) with Pair show ?thesis by blast
  next
    case (Inr r)
    obtain ws names where r: "r = (ws, names)" by (cases r)
    note S = select_indexers_Inr [OF Pair [unfolded Inr r]]
    from assms(2) show ?thesis
    proof
      assume "endsWith arg ''.'' \<and> expansion arg = []"
      with S(4) assms(1) show ?thesis by blast
    next
      assume a: "\<not> endsWith arg ''.'' \<and> arg \<notin> {''setup'', ''all''} \<union> set AllIndexerKeys"
      then have "arg \<in> named e argv" using assms(1) unfolding named_def by (force simp: expansion_def)
      with S(3) a show ?thesis by blast
    qed
  qed
qed

section \<open>Properties of the process\<close>

lemma quiet_refl: "quiet st st"
  by (simp add: quiet_def)

lemma quiet_trans:
  assumes "quiet a b" "quiet b c"
  shows "quiet a c"
proof -
  from assms(1) obtain n1 where n1: "effects b = effects a @ n1" "list_all (\<lambda>e. \<not> is_start e) n1"
    unfolding quiet_def by blast
  from assms(2) obtain n2 where n2: "effects c = effects b @ n2" "list_all (\<lambda>e. \<not> is_start e) n2"
    unfolding quiet_def by blast
  from n1 n2 have "effects c = effects a @ (n1 @ n2)" "list_all (\<lambda>e. \<not> is_start e) (n1 @ n2)"
    by simp_all
  then have "\<exists>new. effects c = effects a @ new \<and> list_all (\<lambda>e. \<not> is_start e) new" by blast
  with assms show ?thesis unfolding quiet_def by simp
qed

lemma quiet_emit: "\<not> is_start e \<Longrightarrow> quiet st (emit e st)"
  by (simp add: quiet_def emit_def)

lemma say_quiet: "\<not> is_start e \<Longrightarrow> say e st = (r, st') \<Longrightarrow> quiet st st'"
  by (auto simp: say_def quiet_emit)

lemma call_quiet: "\<not> is_start e \<Longrightarrow> call w e st = (r, st') \<Longrightarrow> quiet st st'"
  by (auto simp: call_def quiet_emit)

lemma call_None: "call w e st = (None, st') \<Longrightarrow> st' = emit e st"
  by (auto simp: call_def split: if_splits)

lemma call_state: "call w e st = (r, st') \<Longrightarrow> st' = emit e st"
  by (auto simp: call_def split: if_splits)

lemma seq_append:
  "seq (as @ bs) st = (case seq as st of (None, st') \<Rightarrow> seq bs st' | (Some e, st') \<Rightarrow> (Some e, st'))"
  by (induction as arbitrary: st) (auto split: prod.splits option.splits)

lemma seq_quiet:
  assumes "\<And>a st r st'. a \<in> set as \<Longrightarrow> a st = (r, st') \<Longrightarrow> quiet st st'"
  shows "seq as st = (r, st') \<Longrightarrow> quiet st st'"
  using assms
proof (induction as arbitrary: st)
  case Nil then show ?case by (simp add: quiet_refl)
next
  case (Cons a as)
  obtain r1 st1 where a: "a st = (r1, st1)" by (cases "a st")
  have q1: "quiet st st1" using Cons.prems(2) [of a st r1 st1] a by simp
  show ?case
  proof (cases r1)
    case None
    with a Cons.prems(1) have "seq as st1 = (r, st')" by simp
    then have "quiet st1 st'" using Cons.IH Cons.prems(2) by (metis list.set_intros(2))
    with q1 show ?thesis by (rule quiet_trans)
  next
    case (Some e)
    with a Cons.prems(1) have "st' = st1" by simp
    with q1 show ?thesis by simp
  qed
qed

lemma seq_says: "seq (map say es @ rest) st = seq rest (st\<lparr>effects := effects st @ es\<rparr>)"
  by (induction es arbitrary: st) (simp_all add: say_def emit_def)

lemma all_setups_state:
  "all_setups w ks st = (r, st') \<Longrightarrow> st' = st\<lparr>effects := effects st @ map IndexerSetup ks\<rparr>"
proof (induction ks arbitrary: st r st')
  case Nil then show ?case by simp
next
  case (Cons k ks)
  obtain r1 st1 where c: "call w (IndexerSetup k) st = (r1, st1)" by (cases "call w (IndexerSetup k) st")
  obtain r2 st2 where a: "all_setups w ks st1 = (r2, st2)" by (cases "all_setups w ks st1")
  from Cons.prems c a have "st' = st2" by (simp split: option.splits)
  moreover from Cons.IH [OF a] have "st2 = st1\<lparr>effects := effects st1 @ map IndexerSetup ks\<rparr>" .
  moreover from call_state [OF c] have "st1 = emit (IndexerSetup k) st" .
  ultimately show ?case by (simp add: emit_def)
qed

lemma all_setups_quiet: "all_setups w ks st = (r, st') \<Longrightarrow> quiet st st'"
  by (drule all_setups_state) (auto simp: quiet_def list_all_iff is_start_def)

lemma seq_Cons_None:
  "seq (a # as) st = (None, st') \<Longrightarrow> \<exists>s1. a st = (None, s1) \<and> seq as s1 = (None, st')"
  by (cases "a st") (auto split: option.splits)

lemma setup_phase_quiet: "setup_phase w st = (r, st') \<Longrightarrow> quiet st st'"
  unfolding setup_phase_def
proof (erule seq_quiet [rotated])
  fix a s r s'
  assume "a \<in> set [call w (Provide [''sql'']), call w SetupSchemas, all_setups w AllIndexerKeys,
          call w SetupAdminTables, call w SetupMigrationTables, call w SetupViews]"
    and as: "a s = (r, s')"
  then consider e where "a = call w e" "\<not> is_start e" | "a = all_setups w AllIndexerKeys"
    by (auto simp: is_start_def)
  then show "quiet s s'"
  proof cases
    case 1 with as show ?thesis by (auto intro: call_quiet)
  next
    case 2 with as show ?thesis by (auto intro: all_setups_quiet)
  qed
qed

lemma setup_phase_None:
  assumes "setup_phase w st = (None, st')"
  shows "st' = st\<lparr>effects := effects st @ setup_effects\<rparr>"
proof -
  note a0 = assms [unfolded setup_phase_def]
  from seq_Cons_None [OF a0] obtain s1 where
    c1: "call w (Provide [''sql'']) st = (None, s1)" and a1: "seq [call w SetupSchemas,
          all_setups w AllIndexerKeys, call w SetupAdminTables, call w SetupMigrationTables,
          call w SetupViews] s1 = (None, st')" by blast
  from seq_Cons_None [OF a1] obtain s2 where
    c2: "call w SetupSchemas s1 = (None, s2)" and a2: "seq [all_setups w AllIndexerKeys,
          call w SetupAdminTables, call w SetupMigrationTables, call w SetupViews] s2 = (None, st')"
    by blast
  from seq_Cons_None [OF a2] obtain s3 where
    c3: "all_setups w AllIndexerKeys s2 = (None, s3)" and a3: "seq [call w SetupAdminTables,
          call w SetupMigrationTables, call w SetupViews] s3 = (None, st')"
    by blast
  from seq_Cons_None [OF a3] obtain s4 where
    c4: "call w SetupAdminTables s3 = (None, s4)" and a4: "seq [call w SetupMigrationTables,
          call w SetupViews] s4 = (None, st')"
    by blast
  from seq_Cons_None [OF a4] obtain s5 where
    c5: "call w SetupMigrationTables s4 = (None, s5)" and a5: "seq [call w SetupViews] s5 = (None, st')"
    by blast
  from seq_Cons_None [OF a5] have c6: "call w SetupViews s5 = (None, st')" by simp
  have "s1 = emit (Provide [''sql'']) st" using c1 by (rule call_state)
  moreover have "s2 = emit SetupSchemas s1" using c2 by (rule call_state)
  moreover have "s3 = s2\<lparr>effects := effects s2 @ map IndexerSetup AllIndexerKeys\<rparr>"
    using c3 by (rule all_setups_state)
  moreover have "s4 = emit SetupAdminTables s3" using c4 by (rule call_state)
  moreover have "s5 = emit SetupMigrationTables s4" using c5 by (rule call_state)
  moreover have "st' = emit SetupViews s5" using c6 by (rule call_state)
  ultimately show ?thesis
    by (simp add: emit_def setup_effects_def)
qed

lemma seq_Cons_cases:
  assumes "seq (a # as) st = (r, st')"
  obtains e where "a st = (Some e, st')" "r = Some e"
        | s1 where "a st = (None, s1)" "seq as s1 = (r, st')"
  using assms by (cases "a st") (auto split: option.splits)

lemma chain_run_fail: "chain (env w) (load w) = Inl e \<Longrightarrow> chain_run w st = (Inl e, st)"
  by (simp add: chain_run_def)

lemma emit_simps [simp]:
  "effects (emit e st) = effects st @ [e]" "shutdowns (emit e st) = shutdowns st"
  "willSaveCheckpoint (emit e st) = willSaveCheckpoint st" "RUN_AT (emit e st) = RUN_AT st"
  "exitCode (emit e st) = exitCode st"
  by (simp_all add: emit_def)

lemma grows_refl: "grows P st st"
  by (simp add: grows_def)

lemma grows_trans:
  assumes "grows P a b" "grows P b c"
  shows "grows P a c"
proof -
  from assms(1) obtain n1 where n1: "effects b = effects a @ n1" "list_all P n1"
    unfolding grows_def by blast
  from assms(2) obtain n2 where n2: "effects c = effects b @ n2" "list_all P n2"
    unfolding grows_def by blast
  from n1 n2 have "effects c = effects a @ (n1 @ n2)" "list_all P (n1 @ n2)"
    by simp_all
  then have "\<exists>new. effects c = effects a @ new \<and> list_all P new" by blast
  with assms show ?thesis unfolding grows_def by simp
qed

lemma grows_emit: "P e \<Longrightarrow> grows P st (emit e st)"
  by (simp add: grows_def)

lemma grows_call: "P e \<Longrightarrow> call w e st = (r, st') \<Longrightarrow> grows P st st'"
  by (auto simp: call_def grows_emit)

lemma grows_say: "P e \<Longrightarrow> say e st = (r, st') \<Longrightarrow> grows P st st'"
  by (auto simp: say_def grows_emit)

lemma grows_seq:
  assumes "\<And>a st r st'. a \<in> set as \<Longrightarrow> a st = (r, st') \<Longrightarrow> grows P st st'"
  shows "seq as st = (r, st') \<Longrightarrow> grows P st st'"
  using assms
proof (induction as arbitrary: st)
  case Nil then show ?case by (simp add: grows_refl)
next
  case (Cons a as)
  from Cons.prems(1) show ?case
  proof (cases rule: seq_Cons_cases)
    case (1 e)
    then show ?thesis using Cons.prems(2) [of a st "Some e" st'] by simp
  next
    case (2 s1)
    have "grows P st s1" using Cons.prems(2) [of a st None s1] 2(1) by simp
    moreover have "grows P s1 st'"
    proof (rule Cons.IH [OF 2(2)])
      fix b s r s' assume "b \<in> set as" "b s = (r, s')"
      then show "grows P s s'" using Cons.prems(2) [of b s r s'] by simp
    qed
    ultimately show ?thesis by (rule grows_trans)
  qed
qed

lemma grows_mono: "grows P st st' \<Longrightarrow> (\<And>e. P e \<Longrightarrow> Q e) \<Longrightarrow> grows Q st st'"
  unfolding grows_def by (auto simp: list_all_iff)

lemma chain_run_grows:
  assumes "chain_run w st = (r, st')"
  shows "grows (\<lambda>e. is_start e \<longrightarrow> start_of ''chain'' e) st st'"
proof (cases "chain (env w) (load w)")
  case (Inl e)
  with assms show ?thesis by (simp add: chain_run_def grows_refl)
next
  case (Inr cc)
  let ?as = "[call w (Provide [''sql'', ''ogmios'', ''lucid'', ''notifications'', ''views'']),
                     call w GetChainIndexer,
                     call w StakingStart,
                     call w (ChainStart
                       (case CHAIN_INDEX_BEGIN cc of
                          at_point p \<Rightarrow> begin_candidates [p]
                        | b \<Rightarrow> begin_keyword b)
                       (case CHAIN_INDEX_END cc of
                          None \<Rightarrow> None
                        | Some e \<Rightarrow> Some (e, CHAIN_INDEX_END_DELAY cc))),
                     say (ConsoleLog ''<> Chain intersection found:'')]"
  obtain r1 where s: "seq ?as st = (r1, st')"
    using assms Inr by (cases "seq ?as st") (auto simp: chain_run_def split: option.splits)
  show ?thesis
  proof (rule grows_seq [OF _ s])
    fix a s r s'
    assume "a \<in> set ?as" and as: "a s = (r, s')"
    then consider e where "a = call w e" "is_start e \<longrightarrow> start_of ''chain'' e"
      | e where "a = say e" "is_start e \<longrightarrow> start_of ''chain'' e"
      by (auto simp: is_start_def start_of_def)
    then show "grows (\<lambda>e. is_start e \<longrightarrow> start_of ''chain'' e) s s'"
    proof cases
      case 1 with as show ?thesis by (auto intro: grows_call)
    next
      case 2 with as show ?thesis by (auto intro: grows_say)
    qed
  qed
qed

lemma chain_run_Inr: "chain_run w st = (Inr cb, st') \<Longrightarrow> cb = ChainShutdown"
  by (auto simp: chain_run_def split: sum.splits prod.splits option.splits)

lemma getContext_grows:
  assumes "getContext w name st = (r, st')"
  shows "grows (\<lambda>e. \<not> is_start e) st st'"
proof -
  consider "st' = st" | ch r' where "call w (CreateDiscordAlertContext ch) st = (r', st')"
    using assms by (auto simp: getContext_def split: if_splits sum.splits prod.splits option.splits)
  then show ?thesis
  proof cases
    case 1 then show ?thesis by (simp add: grows_refl)
  next
    case 2 then show ?thesis by (rule grows_call [rotated]) (simp add: is_start_def)
  qed
qed

lemma polling_run_grows:
  assumes "polling_run w name st = (r, st')" "name \<noteq> ''chain''"
  shows "grows (\<lambda>e. is_start e \<longrightarrow> start_of name e) st st'"
proof (cases "getContext w name st")
  case (Pair g st1)
  from getContext_grows [OF Pair]
  have g1: "grows (\<lambda>e. is_start e \<longrightarrow> start_of name e) st st1" by (rule grows_mono) simp
  show ?thesis
  proof (cases g)
    case (Inl e)
    with Pair assms(1) have "st' = st1" by (simp add: polling_run_def)
    with g1 show ?thesis by simp
  next
    case (Inr c)
    let ?as = "[call w (Provide (connectionKeys name)), say (PollingStart name c)]"
    obtain r1 where s: "seq ?as st1 = (r1, st')"
      using assms(1) Pair Inr
      by (cases "seq ?as st1") (auto simp: polling_run_def split: option.splits)
    have "grows (\<lambda>e. is_start e \<longrightarrow> start_of name e) st1 st'"
    proof (rule grows_seq [OF _ s])
      fix a s r s'
      assume "a \<in> set ?as" and as: "a s = (r, s')"
      then consider e where "a = call w e" "is_start e \<longrightarrow> start_of name e"
        | e where "a = say e" "is_start e \<longrightarrow> start_of name e"
        using assms(2) by (auto simp: is_start_def start_of_def)
      then show "grows (\<lambda>e. is_start e \<longrightarrow> start_of name e) s s'"
      proof cases
        case 1 with as show ?thesis by (auto intro: grows_call)
      next
        case 2 with as show ?thesis by (auto intro: grows_say)
      qed
    qed
    with g1 show ?thesis by (rule grows_trans)
  qed
qed

lemma polling_run_Inr:
  assumes "polling_run w name st = (Inr cb, st')"
  shows "cb = PollingShutdown name \<and> (\<exists>c. PollingStart name c \<in> set (effects st'))"
proof -
  obtain g st1 where g: "getContext w name st = (g, st1)" by (cases "getContext w name st")
  with assms obtain c where c: "g = Inr c" by (cases g) (auto simp: polling_run_def)
  let ?as = "[call w (Provide (connectionKeys name)), say (PollingStart name c)]"
  from assms g c have s: "seq ?as st1 = (None, st')" and cb: "cb = PollingShutdown name"
    by (cases "seq ?as st1"; auto simp: polling_run_def split: option.splits)+
  from seq_Cons_None [OF s] obtain s2 where a2: "seq [say (PollingStart name c)] s2 = (None, st')"
    by blast
  then have "st' = emit (PollingStart name c) s2" by (simp add: say_def)
  then have "PollingStart name c \<in> set (effects st')" by (simp add: emit_def)
  with cb show ?thesis by blast
qed

lemma run_grows:
  "run w name st = (r, st') \<Longrightarrow> grows (\<lambda>e. is_start e \<longrightarrow> start_of name e) st st'"
  by (auto simp: run_def dest: chain_run_grows polling_run_grows split: if_splits)

lemma run_Inr: "run w name st = (Inr cb, st') \<Longrightarrow> cb = shutdown_of name"
  by (auto simp: run_def shutdown_of_def dest: chain_run_Inr polling_run_Inr split: if_splits)

lemma run_all_result:
  "run_all w names st = (r, st') \<Longrightarrow>
     willSaveCheckpoint st' = willSaveCheckpoint st \<and> RUN_AT st' = RUN_AT st \<and> exitCode st' = exitCode st
     \<and> (\<exists>k. k \<le> length names \<and> shutdowns st' = shutdowns st @ map shutdown_of (take k names)
             \<and> (r = None \<longrightarrow> k = length names))
     \<and> (\<exists>new. effects st' = effects st @ new
             \<and> list_all (\<lambda>e. is_start e \<longrightarrow> (\<exists>n \<in> set names. start_of n e)) new)"
proof (induction names arbitrary: st)
  case Nil
  then show ?case by simp
next
  case (Cons name rest)
  obtain r1 s1 where r1: "run w name st = (r1, s1)" by (cases "run w name st")
  from run_grows [OF r1] obtain new1 where g: "effects s1 = effects st @ new1"
    "list_all (\<lambda>e. is_start e \<longrightarrow> start_of name e) new1" "shutdowns s1 = shutdowns st"
    "willSaveCheckpoint s1 = willSaveCheckpoint st" "RUN_AT s1 = RUN_AT st" "exitCode s1 = exitCode st"
    unfolding grows_def by blast
  from g(2) have l1: "list_all (\<lambda>e. is_start e \<longrightarrow> (\<exists>n \<in> set (name # rest). start_of n e)) new1"
    by (auto simp: list_all_iff)
  show ?case
  proof (cases r1)
    case (Inl e)
    with r1 Cons.prems have "st' = s1" "r = Some e" by simp_all
    with g l1 show ?thesis by (auto intro: exI [of _ 0])
  next
    case (Inr cb)
    with run_Inr r1 have cb: "cb = shutdown_of name" by blast
    let ?s2 = "s1\<lparr>shutdowns := shutdowns s1 @ [cb]\<rparr>"
    from r1 Inr Cons.prems have ra: "run_all w rest ?s2 = (r, st')" by simp
    from Cons.IH [OF ra] obtain k new2 where ih:
      "willSaveCheckpoint st' = willSaveCheckpoint ?s2" "RUN_AT st' = RUN_AT ?s2" "exitCode st' = exitCode ?s2"
      "k \<le> length rest" "shutdowns st' = shutdowns ?s2 @ map shutdown_of (take k rest)"
      "r = None \<longrightarrow> k = length rest"
      "effects st' = effects ?s2 @ new2"
      "list_all (\<lambda>e. is_start e \<longrightarrow> (\<exists>n \<in> set rest. start_of n e)) new2"
      by blast
    from ih(8) have l2: "list_all (\<lambda>e. is_start e \<longrightarrow> (\<exists>n \<in> set (name # rest). start_of n e)) new2"
      by (auto simp: list_all_iff)
    have sd: "shutdowns st' = shutdowns st @ map shutdown_of (take (Suc k) (name # rest))"
      using ih(5) g(3) cb by simp
    have ef: "effects st' = effects st @ (new1 @ new2)" using ih(7) g(1) by simp
    have "\<exists>k'. k' \<le> length (name # rest) \<and> shutdowns st' = shutdowns st @ map shutdown_of (take k' (name # rest))
             \<and> (r = None \<longrightarrow> k' = length (name # rest))"
      using sd ih(4,6) by (intro exI [of _ "Suc k"]) simp
    moreover have "\<exists>new. effects st' = effects st @ new
             \<and> list_all (\<lambda>e. is_start e \<longrightarrow> (\<exists>n \<in> set (name # rest). start_of n e)) new"
      using ef l1 l2 by (intro exI [of _ "new1 @ new2"]) simp
    ultimately show ?thesis using ih(1,2,3) g(4,5,6) by simp
  qed
qed

lemma run_all_chain_first:
  "chain (env w) (load w) = Inl e \<Longrightarrow> run_all w (''chain'' # rest) st = (Some e, st)"
  by (simp add: run_def chain_run_fail)

lemma warnings_not_start: "list_all (\<lambda>e. \<not> is_start e) (map (disabled_warning e) warned)"
  by (simp add: list_all_iff disabled_warning_def is_start_def)

lemma main_select_Inl:
  assumes "argv \<noteq> []" "select_indexers (ENV w) argv = (warned, Inl err)"
  shows "main w argv = (Threw err, initial\<lparr>effects := map (disabled_warning (ENV w)) warned\<rparr>)"
  using assms by (simp add: main_def)

lemma seq_append_None:
  "seq (as @ bs) st = (None, st') \<Longrightarrow> \<exists>s. seq as st = (None, s) \<and> seq bs s = (None, st')"
  by (cases "seq as st") (auto simp: seq_append split: option.splits)

lemma seq_single [simp]: "seq [a] st = a st"
  by (cases "a st") (auto split: option.splits)

lemma main_cases:
  assumes ne: "argv \<noteq> []"
    and sel: "select_indexers (ENV w) argv = (warned, Inr (ws, names))"
    and m: "main w argv = (out, st)"
  obtains (pre_failed) e where "out = Threw e" "list_all (\<lambda>e. \<not> is_start e) (effects st)"
      "shutdowns st = []" "willSaveCheckpoint st" "\<not> RUN_AT st" "exitCode st = None"
      "\<exists>x. effects st = map (disabled_warning (ENV w)) warned @ x"
  | (started) st3 r where "list_all (\<lambda>e. \<not> is_start e) (effects st3)"
      "shutdowns st3 = []" "willSaveCheckpoint st3" "RUN_AT st3" "exitCode st3 = None"
      "ws \<Longrightarrow> \<exists>p. effects st3 = p @ setup_effects"
      "names \<noteq> []" "run_all w names st3 = (r, st)"
      "out = (case r of None \<Rightarrow> Running | Some e \<Rightarrow> Threw e)"
      "\<exists>x. effects st3 = map (disabled_warning (ENV w)) warned @ x"
  | (none_selected) st3 r where "list_all (\<lambda>e. \<not> is_start e) (effects st3)"
      "shutdowns st3 = []" "willSaveCheckpoint st3" "RUN_AT st3" "exitCode st3 = None"
      "ws \<Longrightarrow> \<exists>p. effects st3 = p @ setup_effects"
      "names = []"
      "seq [say (ConsoleWarn (''No indexer specified, I'' @ [CHR 0x27] @ ''m done!'')), prexit_exit0 w] st3 = (r, st)"
      "out = Exit0 r"
      "\<exists>x. effects st3 = map (disabled_warning (ENV w)) warned @ x"
proof -
  let ?st1 = "initial\<lparr>effects := map (disabled_warning (ENV w)) warned\<rparr>"
  let ?A = "map (\<lambda>name. say (ConsoleLog (''% '' @ name))) names
                                @ [call w (ProvideOne ''notifications''), say (Listen ''index'')]"
  let ?pre = "?A @ (if ws then [setup_phase w] else [])"
  obtain r2 st2 where pre: "seq ?pre ?st1 = (r2, st2)" by (cases "seq ?pre ?st1")
  have q: "quiet ?st1 st2"
  proof (rule seq_quiet [OF _ pre])
    fix a s r s'
    assume "a \<in> set ?pre" and as: "a s = (r, s')"
    then consider e where "a = call w e" "\<not> is_start e" | e where "a = say e" "\<not> is_start e"
      | "a = setup_phase w"
      by (auto simp: is_start_def split: if_splits)
    then show "quiet s s'"
    proof cases
      case 1 with as show ?thesis by (auto intro: call_quiet)
    next
      case 2 with as show ?thesis by (auto intro: say_quiet)
    next
      case 3 with as show ?thesis by (auto intro: setup_phase_quiet)
    qed
  qed
  then obtain new where new: "effects st2 = map (disabled_warning (ENV w)) warned @ new"
    "list_all (\<lambda>e. \<not> is_start e) new"
    and fr: "shutdowns st2 = []" "willSaveCheckpoint st2" "\<not> RUN_AT st2" "exitCode st2 = None"
    unfolding quiet_def by (auto simp: initial_def)
  from new warnings_not_start [of "ENV w" warned]
  have ns2: "list_all (\<lambda>e. \<not> is_start e) (effects st2)" by simp
  show thesis
  proof (cases r2)
    case (Some e)
    with m ne sel pre have "out = Threw e" "st = st2"
      by (simp_all add: main_def)
    with ns2 fr new(1) show thesis by - (rule pre_failed [of e], simp_all)
  next
    case None
    let ?st3 = "st2\<lparr>RUN_AT := True\<rparr>"
    have p3: "list_all (\<lambda>e. \<not> is_start e) (effects ?st3)"
      "shutdowns ?st3 = []" "willSaveCheckpoint ?st3" "RUN_AT ?st3" "exitCode ?st3 = None"
      "\<exists>x. effects ?st3 = map (disabled_warning (ENV w)) warned @ x"
      using ns2 fr new(1) by simp_all
    have su: "\<exists>p. effects ?st3 = p @ setup_effects" if ws
    proof -
      from that pre None have "seq (?A @ [setup_phase w]) ?st1 = (None, st2)" by simp
      from seq_append_None [OF this] obtain s where "seq [setup_phase w] s = (None, st2)" by blast
      then have "setup_phase w s = (None, st2)" by (simp only: seq_single)
      from setup_phase_None [OF this] show ?thesis by simp
    qed
    show thesis
    proof (cases "names = []")
      case True
      obtain r st4 where x: "seq [say (ConsoleWarn (''No indexer specified, I'' @ [CHR 0x27] @ ''m done!'')), prexit_exit0 w] ?st3 = (r, st4)"
        by (cases "seq [say (ConsoleWarn (''No indexer specified, I'' @ [CHR 0x27] @ ''m done!'')), prexit_exit0 w] ?st3")
      with m ne sel pre None True have o: "out = Exit0 r" "st = st4"
        by (simp_all add: main_def Let_def del: seq.simps)
      show thesis
      proof (rule none_selected [of ?st3 r])
        show "ws \<Longrightarrow> \<exists>p. effects ?st3 = p @ setup_effects" by (rule su)
        show "seq [say (ConsoleWarn (''No indexer specified, I'' @ [CHR 0x27] @ ''m done!'')), prexit_exit0 w] ?st3 = (r, st)"
          using x o by (simp only:)
      qed (use True p3 o in simp_all)
    next
      case False
      obtain r st4 where x: "run_all w names ?st3 = (r, st4)" by (cases "run_all w names ?st3")
      with m ne sel pre None False have o: "out = (case r of None \<Rightarrow> Running | Some e \<Rightarrow> Threw e)" "st = st4"
        by (simp_all add: main_def Let_def split: option.splits del: seq.simps)
      show thesis
      proof (rule started [of ?st3 r])
        show "ws \<Longrightarrow> \<exists>p. effects ?st3 = p @ setup_effects" by (rule su)
        show "run_all w names ?st3 = (r, st)" using x o by (simp only:)
      qed (use False p3 o in simp_all)
    qed
  qed
qed

lemmas main_result [consumes 3, case_names pre_failed started none_selected] = main_cases

lemma run_shutdown_result:
  assumes "run_shutdown w cb st = (r, st')"
  shows "shutdowns st' = shutdowns st \<and> willSaveCheckpoint st' = willSaveCheckpoint st
       \<and> RUN_AT st' = RUN_AT st \<and> exitCode st' = exitCode st
       \<and> (\<exists>new rest. effects st' = effects st @ new
             \<and> stop_calls (willSaveCheckpoint st) cb = new @ rest \<and> (r = None \<longrightarrow> rest = []))"
proof (cases cb)
  case ChainShutdown
  let ?c1 = "ChainStop True (willSaveCheckpoint st)"
  obtain r1 s1 where c1: "call w ?c1 st = (r1, s1)" by (cases "call w ?c1 st")
  then have s1: "s1 = emit ?c1 st" by (rule call_state)
  show ?thesis
  proof (cases r1)
    case (Some e)
    with assms ChainShutdown c1 have "st' = s1" by simp
    with s1 ChainShutdown Some assms c1 show ?thesis
      by (auto intro!: exI [of _ "[?c1]"] exI [of _ "[StakingStop]"])
  next
    case None
    with assms ChainShutdown c1 have c2: "call w StakingStop s1 = (r, st')"
      by (simp split: prod.splits option.splits)
    then have "st' = emit StakingStop s1" by (rule call_state)
    with s1 ChainShutdown show ?thesis
      by (auto intro!: exI [of _ "[?c1, StakingStop]"])
  qed
next
  case (PollingShutdown name)
  with assms have "call w (PollingStop name) st = (r, st')" by simp
  then have "st' = emit (PollingStop name) st" by (rule call_state)
  with PollingShutdown show ?thesis
    by (auto intro!: exI [of _ "[PollingStop name]"])
qed

lemma shutdown_loop_result:
  "seq (map (run_shutdown w) cbs) st = (r, st') \<Longrightarrow>
     shutdowns st' = shutdowns st \<and> willSaveCheckpoint st' = willSaveCheckpoint st
       \<and> RUN_AT st' = RUN_AT st \<and> exitCode st' = exitCode st
       \<and> (\<exists>new rest. effects st' = effects st @ new
             \<and> concat (map (stop_calls (willSaveCheckpoint st)) cbs) = new @ rest
             \<and> (r = None \<longrightarrow> rest = []))"
proof (induction cbs arbitrary: st)
  case Nil
  then show ?case by simp
next
  case (Cons cb cbs)
  from Cons.prems have "seq (run_shutdown w cb # map (run_shutdown w) cbs) st = (r, st')" by simp
  then show ?case
  proof (cases rule: seq_Cons_cases)
    case (1 e)
    from run_shutdown_result [OF 1(1)] obtain new rest where
      f: "shutdowns st' = shutdowns st" "willSaveCheckpoint st' = willSaveCheckpoint st"
         "RUN_AT st' = RUN_AT st" "exitCode st' = exitCode st"
      and n: "effects st' = effects st @ new" "stop_calls (willSaveCheckpoint st) cb = new @ rest"
      by blast
    have "concat (map (stop_calls (willSaveCheckpoint st)) (cb # cbs))
           = new @ (rest @ concat (map (stop_calls (willSaveCheckpoint st)) cbs))"
      using n(2) by simp
    with f n(1) 1(2) show ?thesis by blast
  next
    case (2 s1)
    from run_shutdown_result [OF 2(1)] obtain new1 where
      f1: "shutdowns s1 = shutdowns st" "willSaveCheckpoint s1 = willSaveCheckpoint st"
         "RUN_AT s1 = RUN_AT st" "exitCode s1 = exitCode st"
      and n1: "effects s1 = effects st @ new1" "stop_calls (willSaveCheckpoint st) cb = new1"
      by auto
    from Cons.IH [OF 2(2)] obtain new2 rest where
      f2: "shutdowns st' = shutdowns s1" "willSaveCheckpoint st' = willSaveCheckpoint s1"
         "RUN_AT st' = RUN_AT s1" "exitCode st' = exitCode s1"
      and n2: "effects st' = effects s1 @ new2"
         "concat (map (stop_calls (willSaveCheckpoint s1)) cbs) = new2 @ rest" "r = None \<longrightarrow> rest = []"
      by blast
    have "effects st' = effects st @ (new1 @ new2)" using n1(1) n2(1) by simp
    moreover have "concat (map (stop_calls (willSaveCheckpoint st)) (cb # cbs)) = (new1 @ new2) @ rest"
      using n1(2) n2(2) f1(2) by simp
    ultimately show ?thesis using f1 f2 n2(3) by auto
  qed
qed

lemma prexit_handler_early:
  "\<not> RUN_AT st \<Longrightarrow> prexit_handler w signal h st = (Some (ReferenceError ''RUN_AT''), st)"
  by (simp add: prexit_handler_def)

lemma set_exit_code_result:
  "set_exit_code w signal h st = (r, st') \<Longrightarrow>
     r = None \<and> shutdowns st' = shutdowns st \<and> willSaveCheckpoint st' = willSaveCheckpoint st
     \<and> RUN_AT st' = RUN_AT st \<and> effects st' = effects st
     \<and> exitCode st' = (if exitCode st = None \<and> h
                          then Some (case signals w signal of Some n \<Rightarrow> n | None \<Rightarrow> 1) else exitCode st)"
  by (cases "exitCode st = None \<and> h") (auto simp: set_exit_code_def)

lemma report_exception_result:
  "report_exception signal st = (r, st') \<Longrightarrow>
     r = None \<and> shutdowns st' = shutdowns st \<and> willSaveCheckpoint st' = willSaveCheckpoint st
     \<and> RUN_AT st' = RUN_AT st \<and> exitCode st' = exitCode st
     \<and> (\<exists>tail. effects st' = effects st @ tail \<and> list_all (\<lambda>e. \<not> is_release e \<and> \<not> is_start e) tail)"
  by (cases "signal = ''uncaughtException''"; cases "signal = ''unhandledRejection''")
     (auto simp: report_exception_def is_release_def is_start_def)

lemma handler_tail_result:
  assumes "seq [set_exit_code w signal h, report_exception signal, say (ConsoleLog ''=== GOOD BYE ==='')] st = (r, st')"
  shows "r = None \<and> shutdowns st' = shutdowns st \<and> willSaveCheckpoint st' = willSaveCheckpoint st
       \<and> RUN_AT st' = RUN_AT st
       \<and> exitCode st' = (if exitCode st = None \<and> h
                          then Some (case signals w signal of Some n \<Rightarrow> n | None \<Rightarrow> 1) else exitCode st)
       \<and> (\<exists>tail. effects st' = effects st @ tail \<and> list_all (\<lambda>e. \<not> is_release e \<and> \<not> is_start e) tail)"
proof -
  obtain r1 s1 where a1: "set_exit_code w signal h st = (r1, s1)" by (cases "set_exit_code w signal h st")
  note p1 = set_exit_code_result [OF a1]
  obtain r2 s2 where a2: "report_exception signal s1 = (r2, s2)" by (cases "report_exception signal s1")
  note p2 = report_exception_result [OF a2]
  from p2 obtain tail where tail: "effects s2 = effects s1 @ tail"
    "list_all (\<lambda>e. \<not> is_release e \<and> \<not> is_start e) tail" by blast
  from assms a1 a2 p1 p2 have r: "r = None" and st': "st' = emit (ConsoleLog ''=== GOOD BYE ==='') s2"
    by (simp_all add: say_def)
  have "effects st' = effects st @ (tail @ [ConsoleLog ''=== GOOD BYE ===''])"
    using st' tail(1) p1 by simp
  moreover have "list_all (\<lambda>e. \<not> is_release e \<and> \<not> is_start e) (tail @ [ConsoleLog ''=== GOOD BYE ===''])"
    using tail(2) by (simp add: is_release_def is_start_def)
  ultimately have "\<exists>tail. effects st' = effects st @ tail \<and> list_all (\<lambda>e. \<not> is_release e \<and> \<not> is_start e) tail"
    by blast
  with r st' p1 p2 show ?thesis by simp
qed

lemma prexit_handler_result:
  assumes "prexit_handler w signal h st = (r, st')" and run_at: "RUN_AT st"
  shows "shutdowns st' = shutdowns st \<and> willSaveCheckpoint st' = willSaveCheckpoint st
       \<and> RUN_AT st' = RUN_AT st
       \<and> (\<exists>new rest tail.
             effects st' = effects st @ [ConsoleWarn ''$ TIME:'', ConsoleWarn (''$ EXIT: '' @ signal)] @ new @ tail
             \<and> concat (map (stop_calls (willSaveCheckpoint st)) (rev (shutdowns st))) @ [ConnectionsCleanup] = new @ rest
             \<and> list_all (\<lambda>e. \<not> is_release e \<and> \<not> is_start e) tail
             \<and> (r = None \<longrightarrow> rest = []))
       \<and> (exitCode st \<noteq> None \<longrightarrow> exitCode st' = exitCode st)
       \<and> (r = None \<longrightarrow> exitCode st' = (if exitCode st = None \<and> h
                          then Some (case signals w signal of Some n \<Rightarrow> n | None \<Rightarrow> 1) else exitCode st))"
proof -
  let ?A = "[ConsoleWarn ''$ TIME:'', ConsoleWarn (''$ EXIT: '' @ signal)]"
  let ?B = "map (run_shutdown w) (rev (shutdowns st))"
  let ?C = "[set_exit_code w signal h, report_exception signal, say (ConsoleLog ''=== GOOD BYE ==='')]"
  let ?sA = "st\<lparr>effects := effects st @ ?A\<rparr>"
  let ?full = "concat (map (stop_calls (willSaveCheckpoint st)) (rev (shutdowns st)))"
  have "prexit_handler w signal h st = seq (map say ?A @ (?B @ (call w ConnectionsCleanup # ?C))) st"
    using run_at by (simp add: prexit_handler_def)
  also have "\<dots> = seq (?B @ (call w ConnectionsCleanup # ?C)) ?sA"
    by (rule seq_says)
  finally have h1: "seq (?B @ (call w ConnectionsCleanup # ?C)) ?sA = (r, st')" using assms(1) by simp
  obtain rB sB where B: "seq ?B ?sA = (rB, sB)" by (cases "seq ?B ?sA")
  from shutdown_loop_result [OF B] obtain new rest where
    fB: "shutdowns sB = shutdowns st" "willSaveCheckpoint sB = willSaveCheckpoint st"
        "RUN_AT sB = RUN_AT st" "exitCode sB = exitCode st"
    and nB: "effects sB = effects st @ ?A @ new" "?full = new @ rest" "rB = None \<longrightarrow> rest = []"
    by auto
  show ?thesis
  proof (cases rB)
    case (Some e)
    with h1 B have "r = Some e" "st' = sB" by (simp_all add: seq_append)
    moreover have "?full @ [ConnectionsCleanup] = new @ (rest @ [ConnectionsCleanup])" using nB(2) by simp
    then have "\<exists>new rest tail.
             effects sB = effects st @ ?A @ new @ tail
             \<and> ?full @ [ConnectionsCleanup] = new @ rest
             \<and> list_all (\<lambda>e. \<not> is_release e \<and> \<not> is_start e) tail
             \<and> (Some e = None \<longrightarrow> rest = [])"
      using nB(1) by (intro exI [of _ new] exI [of _ "rest @ [ConnectionsCleanup]"] exI [of _ "[]"]) simp
    ultimately show ?thesis using fB by simp
  next
    case None
    with nB have new: "new = ?full" by simp
    from None h1 B have h2: "seq (call w ConnectionsCleanup # ?C) sB = (r, st')" by (simp add: seq_append)
    from h2 show ?thesis
    proof (cases rule: seq_Cons_cases)
      case (1 e)
      then have st': "st' = emit ConnectionsCleanup sB" using call_state by blast
      have "\<exists>new rest tail.
             effects st' = effects st @ ?A @ new @ tail
             \<and> ?full @ [ConnectionsCleanup] = new @ rest
             \<and> list_all (\<lambda>e. \<not> is_release e \<and> \<not> is_start e) tail
             \<and> (r = None \<longrightarrow> rest = [])"
        using st' nB(1) new
        by (intro exI [of _ "?full @ [ConnectionsCleanup]"] exI [of _ "[]"] exI [of _ "[]"]) simp
      then show ?thesis using st' 1(2) fB by simp
    next
      case (2 sC)
      then have sC: "sC = emit ConnectionsCleanup sB" using call_state by blast
      from handler_tail_result [OF 2(2)] obtain tail where
        t: "r = None" "shutdowns st' = shutdowns sC" "willSaveCheckpoint st' = willSaveCheckpoint sC"
          "RUN_AT st' = RUN_AT sC"
          "exitCode st' = (if exitCode sC = None \<and> h
                          then Some (case signals w signal of Some n \<Rightarrow> n | None \<Rightarrow> 1) else exitCode sC)"
          "effects st' = effects sC @ tail" "list_all (\<lambda>e. \<not> is_release e \<and> \<not> is_start e) tail"
        by blast
      have "effects st' = effects st @ ?A @ (?full @ [ConnectionsCleanup]) @ tail"
        using t(6) sC nB(1) new by simp
      then have "\<exists>new rest tail.
             effects st' = effects st @ ?A @ new @ tail
             \<and> ?full @ [ConnectionsCleanup] = new @ rest
             \<and> list_all (\<lambda>e. \<not> is_release e \<and> \<not> is_start e) tail
             \<and> (r = None \<longrightarrow> rest = [])"
        using t(7) by (intro exI [of _ "?full @ [ConnectionsCleanup]"] exI [of _ "[]"] exI [of _ tail]) simp
      then show ?thesis using t(2-5) sC fB by auto
    qed
  qed
qed

lemma stop_calls_release: "list_all is_release (stop_calls flag cb)"
  by (cases cb) (simp_all add: is_release_def)

lemma full_release:
  "list_all is_release (concat (map (stop_calls flag) cbs) @ [ConnectionsCleanup])"
proof -
  have "is_release ConnectionsCleanup" by (simp add: is_release_def)
  moreover have "list_all is_release (concat (map (stop_calls flag) cbs))"
    by (induction cbs) (simp_all add: stop_calls_release)
  ultimately show ?thesis by simp
qed

lemma filter_middle:
  assumes "list_all (\<lambda>e. \<not> P e) A" "list_all P new" "list_all (\<lambda>e. \<not> P e) tail"
  shows "filter P (A @ new @ tail) = new"
  using assms by (simp add: list_all_iff)

lemma since_append: "effects st' = effects st @ xs \<Longrightarrow> since st st' = xs"
  by (simp add: since_def)

lemma prexit_handler_since:
  assumes "prexit_handler w signal h st = (r, st')"
  shows "\<exists>rest. concat (map (stop_calls (willSaveCheckpoint st)) (rev (shutdowns st))) @ [ConnectionsCleanup]
            = filter is_release (since st st') @ rest \<and> (r = None \<longrightarrow> rest = [])"
    and "list_all (\<lambda>e. \<not> is_start e) (since st st')"
    and "effects st' = effects st @ since st st'"
proof -
  let ?full = "concat (map (stop_calls (willSaveCheckpoint st)) (rev (shutdowns st))) @ [ConnectionsCleanup]"
  let ?A = "[ConsoleWarn ''$ TIME:'', ConsoleWarn (''$ EXIT: '' @ signal)]"
  have "(\<exists>rest. ?full = filter is_release (since st st') @ rest \<and> (r = None \<longrightarrow> rest = []))
      \<and> list_all (\<lambda>e. \<not> is_start e) (since st st') \<and> effects st' = effects st @ since st st'"
  proof (cases "RUN_AT st")
    case False
    from prexit_handler_early [OF False, of w signal h] assms have "st' = st" "r \<noteq> None" by simp_all
    then show ?thesis by (simp add: since_def)
  next
    case True
    from prexit_handler_result [OF assms True] obtain new rest tail where
      e: "effects st' = effects st @ ?A @ new @ tail" and f: "?full = new @ rest"
      and t: "list_all (\<lambda>e. \<not> is_release e \<and> \<not> is_start e) tail" and r: "r = None \<longrightarrow> rest = []"
      by blast
    from e have s: "since st st' = ?A @ new @ tail" by (rule since_append)
    have "list_all is_release (new @ rest)" using full_release [of "willSaveCheckpoint st" "rev (shutdowns st)"] f by simp
    then have rel: "list_all is_release new" by simp
    have "filter is_release (?A @ new @ tail) = new"
      by (rule filter_middle) (use rel t in \<open>auto simp: is_release_def list_all_iff\<close>)
    with s f r have 1: "\<exists>rest. ?full = filter is_release (since st st') @ rest \<and> (r = None \<longrightarrow> rest = [])"
      by auto
    have "list_all (\<lambda>e. \<not> is_start e) new"
      using rel by (auto simp: list_all_iff is_release_def is_start_def split: effect.splits)
    with t have 2: "list_all (\<lambda>e. \<not> is_start e) (since st st')"
      unfolding s by (auto simp: list_all_iff is_start_def)
    from 1 2 e s show ?thesis by simp
  qed
  then show "\<exists>rest. ?full = filter is_release (since st st') @ rest \<and> (r = None \<longrightarrow> rest = [])"
    and "list_all (\<lambda>e. \<not> is_start e) (since st st')"
    and "effects st' = effects st @ since st st'" by blast+
qed

lemma cleanup_not_in_stops: "ConnectionsCleanup \<notin> set (concat (map (stop_calls flag) cbs))"
proof (induction cbs)
  case Nil then show ?case by simp
next
  case (Cons cb cbs) then show ?case by (cases cb) simp_all
qed

lemma prefix_with_last:
  assumes "full @ [c] = new @ rest" "c \<in> set new" "c \<notin> set full"
  shows "rest = [] \<and> new = full @ [c]"
proof (cases rest rule: rev_cases)
  case Nil with assms(1) show ?thesis by simp
next
  case (snoc ys y)
  with assms(1) have "full = new @ ys" by simp
  with assms(2,3) show ?thesis by simp
qed

lemma stops_chain_stop_with:
  "list_all (chain_stop_with flag) (concat (map (stop_calls flag) cbs) @ [ConnectionsCleanup])"
proof -
  have "list_all (chain_stop_with flag) (stop_calls flag cb)" for cb
    by (cases cb) (simp_all add: chain_stop_with_def)
  then have "list_all (chain_stop_with flag) (concat (map (stop_calls flag) cbs))"
    by (induction cbs) simp_all
  moreover have "chain_stop_with flag ConnectionsCleanup" by (simp add: chain_stop_with_def)
  ultimately show ?thesis by simp
qed

lemma chain_stop_release: "\<not> is_release e \<Longrightarrow> chain_stop_with flag e"
  by (cases e) (simp_all add: is_release_def chain_stop_with_def)

lemma handler_chain_stops:
  assumes "prexit_handler w signal h st = (r, st')"
  shows "list_all (chain_stop_with (willSaveCheckpoint st)) (since st st')"
    and "r = None \<Longrightarrow> ChainShutdown \<in> set (shutdowns st)
           \<Longrightarrow> ChainStop True (willSaveCheckpoint st) \<in> set (since st st')"
proof -
  let ?f = "willSaveCheckpoint st"
  let ?full = "concat (map (stop_calls ?f) (rev (shutdowns st))) @ [ConnectionsCleanup]"
  from prexit_handler_since(1) [OF assms] obtain rest where
    rest: "?full = filter is_release (since st st') @ rest" "r = None \<longrightarrow> rest = []" by blast
  have "list_all (chain_stop_with ?f) (filter is_release (since st st') @ rest)"
    using stops_chain_stop_with [of ?f "rev (shutdowns st)"] rest(1) by simp
  then have "list_all (chain_stop_with ?f) (filter is_release (since st st'))" by simp
  then show "list_all (chain_stop_with ?f) (since st st')"
    by (auto simp: list_all_iff intro: chain_stop_release)
  assume "r = None" and cs: "ChainShutdown \<in> set (shutdowns st)"
  with rest have eq: "filter is_release (since st st') = ?full" by simp
  have "ChainStop True ?f \<in> set (stop_calls ?f ChainShutdown)" by simp
  moreover from cs have "stop_calls ?f ChainShutdown \<in> set (map (stop_calls ?f) (rev (shutdowns st)))"
    by (simp only: set_map set_rev) (rule imageI)
  ultimately have "ChainStop True ?f \<in> set ?full" by (simp only: set_append set_concat) blast
  with eq have "ChainStop True ?f \<in> set (filter is_release (since st st'))" by simp
  then show "ChainStop True ?f \<in> set (since st st')" by simp
qed

lemma prexit_handler_frame:
  assumes "prexit_handler w signal h st = (r, st')"
  shows "shutdowns st' = shutdowns st" "willSaveCheckpoint st' = willSaveCheckpoint st"
    "RUN_AT st' = RUN_AT st" "exitCode st \<noteq> None \<Longrightarrow> exitCode st' = exitCode st"
proof -
  have "shutdowns st' = shutdowns st \<and> willSaveCheckpoint st' = willSaveCheckpoint st
    \<and> RUN_AT st' = RUN_AT st \<and> (exitCode st \<noteq> None \<longrightarrow> exitCode st' = exitCode st)"
  proof (cases "RUN_AT st")
    case True
    from prexit_handler_result [OF assms True] show ?thesis by blast
  next
    case False
    from prexit_handler_early [OF False, of w signal h] assms show ?thesis by simp
  qed
  then show "shutdowns st' = shutdowns st" "willSaveCheckpoint st' = willSaveCheckpoint st"
    "RUN_AT st' = RUN_AT st" "exitCode st \<noteq> None \<Longrightarrow> exitCode st' = exitCode st" by blast+
qed

lemma listen_callback_reload:
  assumes "listen_callback w ''reload'' st = (r, st')"
  defines "st1 \<equiv> (emit (ConsoleLog ''Received signal: reload'') st)\<lparr>willSaveCheckpoint := False, exitCode := Some 174\<rparr>"
  shows "prexit_handler w ''prexit'' False st1 = (r, st')"
    and "since st st' = ConsoleLog ''Received signal: reload'' # since st1 st'"
    and "exitCode st' = Some 174" and "\<not> willSaveCheckpoint st'" and "shutdowns st' = shutdowns st"
proof -
  show h: "prexit_handler w ''prexit'' False st1 = (r, st')"
    using assms(1) unfolding st1_def by (simp add: listen_callback_def prexit_exit_def)
  from prexit_handler_since(3) [OF h] have "effects st' = effects st @ (ConsoleLog ''Received signal: reload'' # since st1 st')"
    by (simp add: st1_def)
  then show "since st st' = ConsoleLog ''Received signal: reload'' # since st1 st'"
    by (rule since_append)
  from prexit_handler_frame [OF h] show "exitCode st' = Some 174" "\<not> willSaveCheckpoint st'"
    "shutdowns st' = shutdowns st"
    by (simp_all add: st1_def)
qed

lemma listen_callback_other:
  "payload \<noteq> ''reload'' \<Longrightarrow>
     listen_callback w payload st
       = (None, st\<lparr>effects := effects st @ [ConsoleWarn (''Unrecognized signal: '' @ payload)]\<rparr>)"
  by (simp add: listen_callback_def say_def emit_def)

lemma seq_say_Cons: "seq (say e # as) st = seq as (emit e st)"
  by (simp add: say_def)

lemma main_flag: "main w argv = (out, st) \<Longrightarrow> willSaveCheckpoint st"
proof (cases "argv = []")
  case True
  assume "main w argv = (out, st)"
  with True show ?thesis by (auto simp: main_def initial_def)
next
  case False
  assume m: "main w argv = (out, st)"
  obtain warned sel where sel: "select_indexers (ENV w) argv = (warned, sel)"
    by (cases "select_indexers (ENV w) argv")
  show ?thesis
  proof (cases sel)
    case (Inl e)
    from main_select_Inl [OF False sel [unfolded Inl]] m show ?thesis by (auto simp: initial_def)
  next
    case (Inr p)
    obtain ws names where p: "p = (ws, names)" by (cases p)
    from False sel [unfolded Inr p] m show ?thesis
    proof (cases rule: main_result)
      case (pre_failed e) then show ?thesis by simp
    next
      case (started st3 r)
      from run_all_result [OF started(8)] started(3) show ?thesis by simp
    next
      case (none_selected st3 r)
      let ?s = "emit (ConsoleWarn (''No indexer specified, I'' @ [CHR 0x27] @ ''m done!'')) st3"
      from none_selected(8) have "prexit_handler w ''prexit'' False (?s\<lparr>exitCode := Some 0\<rparr>) = (r, st)"
        by (simp only: seq_say_Cons seq_single prexit_exit0_def prexit_exit_def)
      from prexit_handler_frame(2) [OF this] none_selected(3) show ?thesis by simp
    qed
  qed
qed

lemma call_no_reject: "(\<forall>hist e. \<not> rejects w hist e) \<Longrightarrow> call w e st = (None, emit e st)"
  by (simp add: call_def)





lemma bogus_selected: "select_indexers e [''bogus''] = ([], Inl (Error ''Unexpected indexer: bogus''))"
  by (cases e; code_simp)

lemma exit_code_no_arguments: "fst (main w []) = Exited 1 \<and> exitCode (snd (main w [])) = Some 1"
  by (simp add: main_def)

lemma exit_code_signal:
  assumes "RUN_AT st" "exitCode st = None" "signals w signal = Some n"
    and "prexit_handler w signal True st = (None, st')"
  shows "exitCode st' = Some n"
  using prexit_handler_result [OF assms(4) assms(1)] assms(2,3) by simp

lemma exit_code_kept:
  assumes "exitCode st = Some c" "prexit_handler w signal h st = (r, st')"
  shows "exitCode st' = Some c"
  using prexit_handler_frame(4) [OF assms(2)] assms(1) by simp

lemma exit_code_nothing_to_do:
  assumes "main w argv = (Exit0 r, st)"
  shows "exitCode st = Some 0"
proof -
  from assms have ne: "argv \<noteq> []" by (auto simp: main_def)
  obtain warned sel where sel: "select_indexers (ENV w) argv = (warned, sel)"
    by (cases "select_indexers (ENV w) argv")
  show ?thesis
  proof (cases sel)
    case (Inl e)
    from main_select_Inl [OF ne sel [unfolded Inl]] assms show ?thesis by simp
  next
    case (Inr p)
    obtain ws names where p: "p = (ws, names)" by (cases p)
    from ne sel [unfolded Inr p] assms show ?thesis
    proof (cases rule: main_result)
      case (pre_failed e) then show ?thesis by simp
    next
      case (started st3 r') then show ?thesis by (simp split: option.splits)
    next
      case (none_selected st3 r')
      let ?s = "emit (ConsoleWarn (''No indexer specified, I'' @ [CHR 0x27] @ ''m done!'')) st3"
      from none_selected(8) have "prexit_handler w ''prexit'' False (?s\<lparr>exitCode := Some 0\<rparr>) = (r', st)"
        by (simp only: seq_say_Cons seq_single prexit_exit0_def prexit_exit_def)
      from exit_code_kept [OF _ this] show ?thesis by simp
    qed
  qed
qed

lemma chain_not_disabled: "''chain'' \<notin> set (disabled e)"
  by (cases e) (simp_all add: disabled_def DisabledIndexers_def AllIndexerKeys_def startsWith_def)

lemma chain_registered: "''chain'' \<in> set AllIndexerKeys"
  by (simp add: AllIndexerKeys_def)

lemma all_names_chain: "''all'' \<in> set argv \<Longrightarrow> ''chain'' \<in> named e argv"
  by (simp add: named_def chain_not_disabled chain_registered)

lemma chain_is_first:
  "''chain'' \<in> N \<Longrightarrow> \<exists>rest. filter (\<lambda>k. k \<in> N) AllIndexerKeys = ''chain'' # rest"
  by (simp add: AllIndexerKeys_def)

lemma setup_effects_no_start: "list_all (\<lambda>e. \<not> is_start e) setup_effects"
  by (simp add: setup_effects_def list_all_iff is_start_def) 

lemma main_effects:
  assumes ne: "argv \<noteq> []"
    and sel: "select_indexers (ENV w) argv = (warned, Inr (ws, names))"
    and m: "main w argv = (out, st)"
  shows "\<exists>pre post. effects st = pre @ post \<and> list_all (\<lambda>e. \<not> is_start e) pre
           \<and> (\<exists>x. pre = map (disabled_warning (ENV w)) warned @ x)
           \<and> list_all (\<lambda>e. is_start e \<longrightarrow> (\<exists>n \<in> set names. start_of n e)) post
           \<and> (ws \<and> (post \<noteq> [] \<or> out = Running) \<longrightarrow> (\<exists>p. pre = p @ setup_effects))"
  using ne sel m
proof (cases rule: main_result)
  case (pre_failed e)
  then show ?thesis by (intro exI [of _ "effects st"] exI [of _ "[]"]) simp
next
  case (started st3 r)
  from run_all_result [OF started(8)] obtain new where
    "effects st = effects st3 @ new"
    "list_all (\<lambda>e. is_start e \<longrightarrow> (\<exists>n \<in> set names. start_of n e)) new" by blast
  with started(1,6,10) show ?thesis
    by (intro exI [of _ "effects st3"] exI [of _ new]) auto
next
  case (none_selected st3 r)
  let ?e = "ConsoleWarn (''No indexer specified, I'' @ [CHR 0x27] @ ''m done!'')"
  let ?s = "emit ?e st3"
  from none_selected(8) have h: "prexit_handler w ''prexit'' False (?s\<lparr>exitCode := Some 0\<rparr>) = (r, st)"
    by (simp only: seq_say_Cons seq_single prexit_exit0_def prexit_exit_def)
  let ?new = "?e # since (?s\<lparr>exitCode := Some 0\<rparr>) st"
  from prexit_handler_since(2,3) [OF h]
  have e: "effects st = effects st3 @ ?new" and l: "list_all (\<lambda>e. \<not> is_start e) ?new"
    by (simp_all add: is_start_def)
  have "effects st = (effects st3 @ ?new) @ []" using e by simp
  moreover have "list_all (\<lambda>e. \<not> is_start e) (effects st3 @ ?new)" using l none_selected(1) by simp
  moreover have "\<exists>x. effects st3 @ ?new = map (disabled_warning (ENV w)) warned @ x"
    using none_selected(10) by auto
  ultimately show ?thesis using none_selected(9)
    by (intro exI [of _ "effects st3 @ ?new"] exI [of _ "[]"]) simp
qed

lemma seq_completes:
  assumes "\<And>a st. a \<in> set as \<Longrightarrow> fst (a st) = None"
  shows "fst (seq as st) = None"
  using assms
proof (induction as arbitrary: st)
  case Nil then show ?case by simp
next
  case (Cons a as)
  obtain r1 s1 where a: "a st = (r1, s1)" by (cases "a st")
  with Cons.prems [of a st] have "r1 = None" by simp
  with a Cons.IH [of s1] Cons.prems show ?case by simp
qed

lemma call_completes: "(\<forall>hist e. \<not> rejects w hist e) \<Longrightarrow> fst (call w e st) = None"
  by (simp add: call_def)

lemma say_completes: "fst (say e st) = None"
  by (simp add: say_def)

lemma all_setups_completes:
  "(\<forall>hist e. \<not> rejects w hist e) \<Longrightarrow> fst (all_setups w ks st) = None"
proof (induction ks arbitrary: st)
  case Nil then show ?case by simp
next
  case (Cons k ks)
  obtain r2 s2 where b: "all_setups w ks (emit (IndexerSetup k) st) = (r2, s2)"
    by (cases "all_setups w ks (emit (IndexerSetup k) st)")
  with Cons.IH [OF Cons.prems, of "emit (IndexerSetup k) st"] have "r2 = None" by simp
  with b Cons.prems show ?case by (simp add: call_def)
qed

lemma setup_phase_completes:
  assumes "\<forall>hist e. \<not> rejects w hist e"
  shows "fst (setup_phase w st) = None"
  unfolding setup_phase_def
proof (rule seq_completes)
  fix a s
  assume "a \<in> set [call w (Provide [''sql'']), call w SetupSchemas, all_setups w AllIndexerKeys,
          call w SetupAdminTables, call w SetupMigrationTables, call w SetupViews]"
  then consider e where "a = call w e" | "a = all_setups w AllIndexerKeys" by auto
  then show "fst (a s) = None"
    by cases (simp_all add: call_completes [OF assms] all_setups_completes [OF assms])
qed

lemma getContext_completes:
  assumes "\<forall>hist e. \<not> rejects w hist e" "configured w name" "name \<noteq> ''chain''"
  shows "\<exists>c st'. getContext w name st = (Inr c, st')"
proof -
  from assms(2,3) obtain c where c: "fst (getContext w name initial) = Inr c"
    by (auto simp: configured_def split: sum.splits)
  show ?thesis
  proof (cases "name = ''ipfs.project_info'' \<or> name = ''ipfs.project_announcement''
                \<or> name = ''ai.logo'' \<or> name = ''ai.podcast''
                \<or> name = ''ai.ocr'' \<or> name = ''ai.project_moderation''")
    case True
    then have "fst (getContext w name st) = fst (getContext w name initial)"
      by (auto simp: getContext_def)
    with c show ?thesis by (cases "getContext w name st") simp
  next
    case False
    with c obtain dc where "discord (env w) (date_is_valid w) = Inr dc"
      by (cases "discord (env w) (date_is_valid w)") (auto simp: getContext_def)
    with False show ?thesis
      by (simp add: getContext_def call_no_reject [OF assms(1)])
  qed
qed

lemma run_completes:
  assumes "\<forall>hist e. \<not> rejects w hist e" "configured w name"
  shows "\<exists>cb st'. run w name st = (Inr cb, st')"
proof (cases "name = ''chain''")
  case True
  with assms(2) obtain cc where cc: "chain (env w) (load w) = Inr cc"
    by (auto simp: configured_def split: sum.splits)
  let ?as = "[call w (Provide [''sql'', ''ogmios'', ''lucid'', ''notifications'', ''views'']),
                     call w GetChainIndexer,
                     call w StakingStart,
                     call w (ChainStart
                       (case CHAIN_INDEX_BEGIN cc of
                          at_point p \<Rightarrow> begin_candidates [p]
                        | b \<Rightarrow> begin_keyword b)
                       (case CHAIN_INDEX_END cc of
                          None \<Rightarrow> None
                        | Some e \<Rightarrow> Some (e, CHAIN_INDEX_END_DELAY cc))),
                     say (ConsoleLog ''<> Chain intersection found:'')]"
  have "fst (seq ?as st) = None"
  proof (rule seq_completes)
    fix a s assume "a \<in> set ?as"
    then consider e where "a = call w e" | e where "a = say e" by auto
    then show "fst (a s) = None"
      by cases (simp_all add: call_completes [OF assms(1)] say_completes)
  qed
  then obtain s' where "seq ?as st = (None, s')" by (cases "seq ?as st") simp
  with True cc show ?thesis by (simp add: run_def chain_run_def del: seq.simps)
next
  case False
  from getContext_completes [OF assms False, of st]
  obtain c st1 where g: "getContext w name st = (Inr c, st1)" by blast
  let ?as = "[call w (Provide (connectionKeys name)), say (PollingStart name c)]"
  have "fst (seq ?as st1) = None"
  proof (rule seq_completes)
    fix a s assume "a \<in> set ?as"
    then consider e where "a = call w e" | e where "a = say e" by auto
    then show "fst (a s) = None"
      by cases (simp_all add: call_completes [OF assms(1)] say_completes)
  qed
  then obtain s' where "seq ?as st1 = (None, s')" by (cases "seq ?as st1") simp
  with False g show ?thesis by (simp add: run_def polling_run_def del: seq.simps)
qed

lemma run_all_completes:
  assumes "\<forall>hist e. \<not> rejects w hist e" "\<forall>name \<in> set names. configured w name"
  shows "fst (run_all w names st) = None"
  using assms(2)
proof (induction names arbitrary: st)
  case Nil then show ?case by simp
next
  case (Cons name rest)
  then have "configured w name" by simp
  from run_completes [OF assms(1) this, of st]
  obtain cb s1 where "run w name st = (Inr cb, s1)" by blast
  with Cons show ?case by simp
qed

lemma main_runs:
  assumes nr: "\<forall>hist e. \<not> rejects w hist e"
    and cfg: "\<forall>name \<in> set names. configured w name"
    and sel: "select_indexers (ENV w) argv = (warned, Inr (ws, names))"
    and ne: "argv \<noteq> []" "names \<noteq> []"
  shows "fst (main w argv) = Running"
proof -
  obtain out st where m: "main w argv = (out, st)" by (cases "main w argv")
  let ?st1 = "initial\<lparr>effects := map (disabled_warning (ENV w)) warned\<rparr>"
  let ?pre = "map (\<lambda>name. say (ConsoleLog (''% '' @ name))) names
                                @ [call w (ProvideOne ''notifications''), say (Listen ''index'')]
                                @ (if ws then [setup_phase w] else [])"
  have "fst (seq ?pre ?st1) = None"
  proof (rule seq_completes)
    fix a s assume "a \<in> set ?pre"
    then consider e where "a = call w e" | e where "a = say e" | "a = setup_phase w"
      by (auto split: if_splits)
    then show "fst (a s) = None"
      by cases (simp_all add: call_completes [OF nr] say_completes setup_phase_completes [OF nr])
  qed
  then obtain st2 where pre: "seq ?pre ?st1 = (None, st2)" by (cases "seq ?pre ?st1") simp
  obtain st4 where ra: "run_all w names (st2\<lparr>RUN_AT := True\<rparr>) = (None, st4)"
    using run_all_completes [OF nr cfg, of "st2\<lparr>RUN_AT := True\<rparr>"]
    by (cases "run_all w names (st2\<lparr>RUN_AT := True\<rparr>)") simp
  show ?thesis
    using ne sel pre ra by (simp add: main_def Let_def del: seq.simps)
qed

lemma dis_dev: "disabled development = [''ai.logo'', ''ai.podcast'', ''ai.ocr'', ''ai.project_moderation'',
   ''discord.project_alert'', ''discord.backing_alert'',
   ''discord.withdraw_funds_alert'', ''discord.delegation_alert'',
   ''discord.project_update_alert'', ''discord.project_moderation_alert'',
   ''discord.kolour_nft_alert'', ''discord.genesis_kreation_nft_alert'']" by code_simp

lemma select_all_development:
  "select_indexers development [''all'']
     = (disabled development, Inr (True, [''chain'', ''ipfs.project_info'', ''ipfs.project_announcement'']))"
proof -
  have d2: "expandArgs [''all'', ''chain'', ''ipfs.project_info'', ''ipfs.project_announcement'']
    = Inr [''all'', ''chain'', ''ipfs.project_info'', ''ipfs.project_announcement'']" by code_simp
  have d3: "pick_indexers (sorted_args [''all'', ''chain'', ''ipfs.project_info'', ''ipfs.project_announcement'']) False []
    = Inr (True, [''chain'', ''ipfs.project_info'', ''ipfs.project_announcement''])" by code_simp
  have d4: "filter (\<lambda>k. k \<notin> set (disabled development)) AllIndexerKeys
    = [''chain'', ''ipfs.project_info'', ''ipfs.project_announcement'']"
    unfolding dis_dev by code_simp
  have d5: "filter (\<lambda>k. k \<in> set (disabled development)) AllIndexerKeys = disabled development"
    unfolding dis_dev by code_simp
  show ?thesis
    by (simp add: select_indexers_def push_all_True d4 d5 d2 d3 del: expandArgs.simps pick_indexers.simps)
qed

lemma example_chain_config:
  "chain (env example_world) (load example_world)
     = Inr \<lparr>CHAIN_INDEX_BEGIN = at_point \<lparr>slot = Finite 1, hash = ''h''\<rparr>, CHAIN_INDEX_END = None,
            CHAIN_INDEX_END_DELAY = None, CONFIG = \<lparr>bootstrap = [\<lparr>slot = Finite 1, hash = ''h''\<rparr>]\<rparr>\<rparr>"
  by code_simp

lemma configured_example:
  "\<forall>name \<in> set [''chain'', ''ipfs.project_info'', ''ipfs.project_announcement''].
     configured example_world name"
  by (simp add: configured_def example_chain_config getContext_def)

lemma configured_ai_logo: "\<forall>name \<in> set [''ai.logo'']. configured ai_world name"
  by (simp add: configured_def getContext_def ai_def andThen_def requiredEnv_def ai_world_def)

lemma ai_logo_unconfigured:
  "fst (main example_world [''ai.logo'']) = Threw (Error ''AI_SERVER_URL must be set'')"
proof -
  have env: "ENV example_world = development" by (simp add: example_world_def)
  have "select_indexers development [''ai.logo''] = ([], Inr (False, [''ai.logo'']))" by code_simp
  then have sel: "select_indexers (ENV example_world) [''ai.logo''] = ([], Inr (False, [''ai.logo'']))"
    by (simp only: env)
  have nr: "\<And>h e. rejects example_world h e = False" by (simp add: example_world_def)
  have ai: "ai (env example_world) = Inl (Error ''AI_SERVER_URL must be set'')"
    by (simp add: ai_def andThen_def requiredEnv_def example_world_def)
  have g: "getContext example_world ''ai.logo'' s = (Inl (Error ''AI_SERVER_URL must be set''), s)" for s
    by (simp add: getContext_def ai andThen_def)
  have r: "run example_world ''ai.logo'' s = (Inl (Error ''AI_SERVER_URL must be set''), s)" for s
    by (simp add: run_def polling_run_def g)
  show ?thesis
    by (simp add: main_def sel Let_def say_def call_def nr r)
qed

lemma select_warned:
  "fst (select_indexers e argv)
     = (if ''all'' \<in> set argv then filter (\<lambda>k. k \<in> set (disabled e)) AllIndexerKeys else [])"
  by (simp add: select_indexers_def push_all_True Let_def)

lemma disabled_development:
  "k \<in> set (disabled development)
     \<longleftrightarrow> k \<in> set AllIndexerKeys \<and> (startsWith k ''ai.'' \<or> startsWith k ''discord.'')"
  by (auto simp: disabled_def DisabledIndexers_def)

lemma start_of_is_start: "start_of n e \<Longrightarrow> is_start e"
  by (cases e) (simp_all add: start_of_def is_start_def)

lemma start_of_inj: "start_of n e \<Longrightarrow> start_of k e \<Longrightarrow> n = k"
  by (cases e) (simp_all add: start_of_def)

lemma warning_not_start_of: "\<not> start_of k (disabled_warning e n)"
  by (simp add: disabled_warning_def start_of_def)

lemma chain_run_started:
  assumes "chain_run w st = (Inr cb, st')"
  shows "StakingStart \<in> set (effects st')"
proof -
  from assms obtain cc where cc: "chain (env w) (load w) = Inr cc"
    by (cases "chain (env w) (load w)") (simp_all add: chain_run_def)
  let ?c4 = "call w (ChainStart
                       (case CHAIN_INDEX_BEGIN cc of
                          at_point p \<Rightarrow> begin_candidates [p]
                        | b \<Rightarrow> begin_keyword b)
                       (case CHAIN_INDEX_END cc of
                          None \<Rightarrow> None
                        | Some e \<Rightarrow> Some (e, CHAIN_INDEX_END_DELAY cc)))"
  let ?as = "[call w (Provide [''sql'', ''ogmios'', ''lucid'', ''notifications'', ''views'']),
                     call w GetChainIndexer, call w StakingStart, ?c4,
                     say (ConsoleLog ''<> Chain intersection found:'')]"
  from assms cc have s: "seq ?as st = (None, st')"
    by (cases "seq ?as st") (auto simp: chain_run_def split: option.splits simp del: seq.simps)
  from seq_Cons_None [OF s] obtain s1 where a1: "seq [call w GetChainIndexer, call w StakingStart, ?c4,
                     say (ConsoleLog ''<> Chain intersection found:'')] s1 = (None, st')" by blast
  from seq_Cons_None [OF a1] obtain s2 where a2: "seq [call w StakingStart, ?c4,
                     say (ConsoleLog ''<> Chain intersection found:'')] s2 = (None, st')" by blast
  from seq_Cons_None [OF a2] obtain s3 where c3: "call w StakingStart s2 = (None, s3)"
    and a3: "seq [?c4, say (ConsoleLog ''<> Chain intersection found:'')] s3 = (None, st')" by blast
  from call_state [OF c3] have in3: "StakingStart \<in> set (effects s3)" by simp
  have "grows (\<lambda>e. True) s3 st'"
  proof (rule grows_seq [OF _ a3])
    fix a s r s' assume "a \<in> set [?c4, say (ConsoleLog ''<> Chain intersection found:'')]" "a s = (r, s')"
    then show "grows (\<lambda>e. True) s s'" by (auto intro: grows_call grows_say)
  qed
  with in3 show ?thesis by (auto simp: grows_def)
qed

lemma run_started:
  assumes "run w name st = (Inr cb, st')"
  shows "\<exists>e \<in> set (effects st'). start_of name e"
proof (cases "name = ''chain''")
  case True
  with assms have "StakingStart \<in> set (effects st')" by (auto simp: run_def dest: chain_run_started)
  moreover have "start_of name StakingStart" using True by (simp add: start_of_def)
  ultimately show ?thesis by blast
next
  case False
  with assms obtain c where "PollingStart name c \<in> set (effects st')"
    by (auto simp: run_def dest: polling_run_Inr)
  moreover have "start_of name (PollingStart name c)" using False by (simp add: start_of_def)
  ultimately show ?thesis by blast
qed

lemma run_all_started:
  "run_all w names st = (None, st') \<Longrightarrow> n \<in> set names \<Longrightarrow> \<exists>e \<in> set (effects st'). start_of n e"
proof (induction names arbitrary: st)
  case Nil then show ?case by simp
next
  case (Cons name rest)
  from Cons.prems(1) obtain cb s1 where r1: "run w name st = (Inr cb, s1)"
    and ra: "run_all w rest (s1\<lparr>shutdowns := shutdowns s1 @ [cb]\<rparr>) = (None, st')"
    by (cases "run w name st") (auto split: sum.splits)
  show ?case
  proof (cases "n = name")
    case True
    from run_started [OF r1] obtain e where e: "e \<in> set (effects s1)" "start_of name e" by blast
    from run_all_result [OF ra] obtain new where "effects st' = effects s1 @ new" by auto
    with e True show ?thesis by auto
  next
    case False
    with Cons.prems(2) have "n \<in> set rest" by simp
    from Cons.IH [OF ra this] show ?thesis .
  qed
qed

lemma named_explicit: "k \<in> set AllIndexerKeys \<Longrightarrow> k \<in> set argv \<Longrightarrow> k \<in> named e argv"
proof -
  assume "k \<in> set AllIndexerKeys" "k \<in> set argv"
  then have "k \<in> set (expansion k)" "k \<in> set argv" by (simp_all add: expansion_key)
  then have "k \<in> (\<Union>arg \<in> set argv. set (expansion arg))" by blast
  then show ?thesis by (simp add: named_def)
qed

lemma main_Running:
  assumes "main w argv = (Running, st)"
  obtains warned ws names st3 where "argv \<noteq> []"
    "select_indexers (ENV w) argv = (warned, Inr (ws, names))" "run_all w names st3 = (None, st)"
proof -
  from assms have ne: "argv \<noteq> []" by (auto simp: main_def)
  obtain warned sel where sel: "select_indexers (ENV w) argv = (warned, sel)"
    by (cases "select_indexers (ENV w) argv")
  show thesis
  proof (cases sel)
    case (Inl e)
    from main_select_Inl [OF ne sel [unfolded Inl]] assms show ?thesis by simp
  next
    case (Inr p)
    obtain ws names where p: "p = (ws, names)" by (cases p)
    note sel' = sel [unfolded Inr p]
    from ne sel' assms show ?thesis
    proof (cases rule: main_result)
      case (pre_failed e) then show ?thesis by simp
    next
      case (started st3 r)
      then have "r = None" by (cases r) simp_all
      with started(8) that [OF ne sel'] show ?thesis by simp
    next
      case (none_selected st3 r) then show ?thesis by simp
    qed
  qed
qed

lemma parseChainIndexBegin_None:
  "parseChainIndexBegin raw = Inr None \<longleftrightarrow> raw = None \<or> raw = Some []"
  by (auto simp: parseChainIndexBegin_def Let_def split: option.splits prod.splits if_splits)

lemma parseChainIndexBegin_Inl:
  "parseChainIndexBegin raw = Inl err \<Longrightarrow> err = Assertion ''Must be <slot>:<hash>''"
  by (auto simp: parseChainIndexBegin_def Let_def split: option.splits prod.splits if_splits)

lemma parseChainIndexBegin_keywords:
  "parseChainIndexBegin (Some ''origin'') = Inr (Some origin)"
  "parseChainIndexBegin (Some ''tip'') = Inr (Some tip)"
  by (simp_all add: parseChainIndexBegin_def)

lemma chain_loaded:
  assumes "requiredEnv env' ''CHAIN_INDEX_CONFIG'' = Inr path" "load' path = Inr config"
  shows "chain env' load' =
     (case parseChainIndexBegin (env' ''CHAIN_INDEX_BEGIN'') of
        Inl e \<Rightarrow> Inl e
      | Inr parsed \<Rightarrow>
          (case (case parsed of
                   Some b \<Rightarrow> Some b
                 | None \<Rightarrow> (case bootstrap config of [] \<Rightarrow> None | p # _ \<Rightarrow> Some (at_point p))) of
             None \<Rightarrow> Inl (Error begin_missing)
           | Some b \<Rightarrow>
               (case parseChainIndexEnd (env' ''CHAIN_INDEX_END'') of
                  Inl e \<Rightarrow> Inl e
                | Inr e \<Rightarrow>
                    Inr \<lparr>CHAIN_INDEX_BEGIN = b,
                         CHAIN_INDEX_END = e,
                         CHAIN_INDEX_END_DELAY =
                           (case env' ''CHAIN_INDEX_END_DELAY'' of
                              None \<Rightarrow> None
                            | Some d \<Rightarrow> if d = [] then None else Some d),
                         CONFIG = config\<rparr>)))"
  using assms by (simp add: chain_def Let_def split: sum.splits option.splits list.splits)

lemma digit_cases:
  assumes "d < (10 :: nat)"
  obtains "d = 0" | "d = 1" | "d = 2" | "d = 3" | "d = 4" | "d = 5" | "d = 6" | "d = 7" | "d = 8" | "d = 9"
  using assms by atomize_elim presburger

lemma digitValue_digit: "d < 10 \<Longrightarrow> digitValue (''0123456789'' ! d) = Some d"
  by (erule digit_cases) (simp_all add: digitValue_def)


lemma leading_digits_decimal:
  "\<exists>ds. ds \<noteq> [] \<and> (\<forall>ys. leading_digits 10 (decimal n @ ys) = ds @ leading_digits 10 ys)
        \<and> (\<forall>acc. foldl (\<lambda>acc d. acc * 10 + int d) acc ds = acc * 10 ^ length ds + int n)"
proof (induction n rule: decimal.induct)
  case (1 n)
  show ?case
  proof (cases "n < 10")
    case True
    then have "decimal n = [''0123456789'' ! n]" by (subst decimal.simps) simp
    with True show ?thesis
      by (intro exI [of _ "[n]"]) (simp add: digitValue_digit)
  next
    case False
    with 1 obtain ds where ds: "ds \<noteq> []"
      "\<And>ys. leading_digits 10 (decimal (n div 10) @ ys) = ds @ leading_digits 10 ys"
      "\<And>acc. foldl (\<lambda>acc d. acc * 10 + int d) acc ds = acc * 10 ^ length ds + int (n div 10)"
      by blast
    have m: "n mod 10 < 10" by simp
    have dn: "decimal n = decimal (n div 10) @ [''0123456789'' ! (n mod 10)]"
      using False by (subst decimal.simps) simp
    have n: "int (n div 10) * 10 + int (n mod 10) = int n" by presburger
    show ?thesis
    proof (intro exI [of _ "ds @ [n mod 10]"] conjI allI)
      show "ds @ [n mod 10] \<noteq> []" by simp
      fix ys
      show "leading_digits 10 (decimal n @ ys) = (ds @ [n mod 10]) @ leading_digits 10 ys"
        by (simp add: dn ds(2) digitValue_digit [OF m])
    next
      fix acc
      show "foldl (\<lambda>acc d. acc * 10 + int d) acc (ds @ [n mod 10])
              = acc * 10 ^ length (ds @ [n mod 10]) + int n"
      proof -
        have "foldl (\<lambda>acc d. acc * 10 + int d) acc (ds @ [n mod 10])
                = foldl (\<lambda>acc d. acc * 10 + int d) acc ds * 10 + int (n mod 10)"
          by (simp only: foldl_append foldl.simps)
        also have "\<dots> = (acc * 10 ^ length ds + int (n div 10)) * 10 + int (n mod 10)"
          by (simp add: ds(3))
        also have "\<dots> = acc * 10 ^ length (ds @ [n mod 10]) + (int (n div 10) * 10 + int (n mod 10))"
          by (simp add: algebra_simps)
        finally show ?thesis by (simp only: n)
      qed
    qed
  qed
qed


lemma bitLength_bound: "m < 2 ^ k \<Longrightarrow> bitLength m \<le> k"
proof (induction k arbitrary: m)
  case 0 then show ?case by (subst bitLength.simps) simp
next
  case (Suc k)
  show ?case
  proof (cases "m \<le> 0")
    case True then show ?thesis by (subst bitLength.simps) simp
  next
    case False
    from Suc.prems have "m div 2 < 2 ^ k" by simp
    from Suc.IH [OF this] False show ?thesis by (subst bitLength.simps) simp
  qed
qed

lemma numberValue_small:
  assumes "n < 2 ^ 53"
  shows "numberValue False (int n) = Finite (int n)"
proof -
  have "int n < 2 ^ 53" using assms by (metis of_nat_less_iff of_nat_numeral of_nat_power)
  then have "bitLength (int n) \<le> 53" by (rule bitLength_bound)
  then show ?thesis by (simp add: numberValue_def nearestDouble_def)
qed

lemma numberValue_not_NaN: "\<not> isNaN (numberValue negative m)"
  by (simp add: numberValue_def isNaN_def split: option.splits)

lemma char_in_decimal: "c \<in> set (decimal n) \<Longrightarrow> c \<in> set ''0123456789''"
proof (induction n rule: decimal.induct)
  case (1 n)
  have d: "d < 10 \<Longrightarrow> ''0123456789'' ! d \<in> set ''0123456789''" for d
    by (rule nth_mem) simp
  show ?case
  proof (cases "n < 10")
    case True
    with 1(2) have "c = ''0123456789'' ! n" by (subst (asm) decimal.simps) simp
    with d [OF True] show ?thesis by simp
  next
    case False
    have m: "n mod 10 < 10" by simp
    from False 1(2) have "c \<in> set (decimal (n div 10)) \<or> c = ''0123456789'' ! (n mod 10)"
      by (subst (asm) decimal.simps) auto
    with 1(1) [OF False] d [OF m] show ?thesis by auto
  qed
qed

lemma decimal_nonempty: "decimal n \<noteq> []"
  by (subst decimal.simps) simp

lemma parseInt_decimal: "parseInt (decimal n) = numberValue False (int n)"
proof -
  from leading_digits_decimal [of n] obtain ds where ds: "ds \<noteq> []"
    "\<And>ys. leading_digits 10 (decimal n @ ys) = ds @ leading_digits 10 ys"
    "\<And>acc. foldl (\<lambda>acc d. acc * 10 + int d) acc ds = acc * 10 ^ length ds + int n"
    by blast
  from ds(2) [of "[]"] have ld: "leading_digits 10 (decimal n) = ds" by simp
  from ds(3) [of 0] have dv: "digits_value 10 ds = int n" by (simp add: digits_value_def)
  have dig: "\<And>c. c \<in> set (decimal n) \<Longrightarrow> c \<in> set ''0123456789''" by (rule char_in_decimal)
  obtain c cs where cc: "decimal n = c # cs"
    using decimal_nonempty [of n] by (cases "decimal n") simp_all
  with dig have c: "c \<in> set ''0123456789''" by simp
  then have ws: "\<not> isWhiteSpace (of_char c)" by (auto simp: isWhiteSpace_def)
  from c have sg: "c \<noteq> CHR ''-''" "c \<noteq> CHR ''+''" by auto
  have hx: "take 2 (decimal n) \<noteq> ''0x''" "take 2 (decimal n) \<noteq> ''0X''"
  proof -
    have "\<And>x. x \<in> set (take 2 (decimal n)) \<Longrightarrow> x \<in> set ''0123456789''"
      using dig by (meson in_set_takeD)
    then show "take 2 (decimal n) \<noteq> ''0x''" "take 2 (decimal n) \<noteq> ''0X''" by fastforce+
  qed
  have dw: "dropWhile (\<lambda>c. isWhiteSpace (of_char c)) (decimal n) = decimal n"
    using ws by (simp add: cc)
  have sgn: "(case decimal n of
                [] \<Rightarrow> (False, decimal n)
              | c # cs \<Rightarrow> if c = CHR ''-'' then (True, cs)
                          else if c = CHR ''+'' then (False, cs) else (False, decimal n))
             = (False, decimal n)"
    using sg by (simp add: cc)
  show ?thesis
    unfolding parseInt_def Let_def dw sgn using hx ld dv ds(1) by simp
qed

lemma split_colon2_no_colon: "CHR '':'' \<notin> set raw \<Longrightarrow> split_colon2 raw = (raw, None)"
proof -
  assume a: "CHR '':'' \<notin> set raw"
  then have t: "takeWhile (\<lambda>c. c \<noteq> CHR '':'') raw = raw" by (induction raw) auto
  from a have d: "dropWhile (\<lambda>c. c \<noteq> CHR '':'') raw = []" by (induction raw) auto
  show ?thesis by (simp add: split_colon2_def t d)
qed

lemma split_colon2_colon:
  assumes "CHR '':'' \<notin> set s"
  shows "split_colon2 (s @ CHR '':'' # rest) = (s, Some (takeWhile (\<lambda>c. c \<noteq> CHR '':'') rest))"
proof -
  from assms have t: "takeWhile (\<lambda>c. c \<noteq> CHR '':'') (s @ CHR '':'' # rest) = s"
    by (induction s) auto
  from assms have d: "dropWhile (\<lambda>c. c \<noteq> CHR '':'') (s @ CHR '':'' # rest) = CHR '':'' # rest"
    by (induction s) auto
  show ?thesis by (simp add: split_colon2_def t d)
qed

lemma colon_not_keyword: "CHR '':'' \<in> set raw \<Longrightarrow> raw \<noteq> ''origin'' \<and> raw \<noteq> ''tip''"
  by auto

lemma colon_not_in_decimal: "CHR '':'' \<notin> set (decimal n)"
  using char_in_decimal [of "CHR '':''" n] by auto

lemma parseChainIndexBegin_point:
  assumes "h \<noteq> []" "CHR '':'' \<notin> set h"
  shows "parseChainIndexBegin (Some (decimal n @ CHR '':'' # h))
           = Inr (Some (at_point \<lparr>slot = numberValue False (int n), hash = h\<rparr>))"
proof -
  let ?raw = "decimal n @ CHR '':'' # h"
  have c: "CHR '':'' \<in> set ?raw" by simp
  have ne: "?raw \<noteq> []" by simp
  from colon_not_keyword [OF c] have k: "?raw \<noteq> ''origin''" "?raw \<noteq> ''tip''" by blast+
  from assms(2) have th: "takeWhile (\<lambda>c. c \<noteq> CHR '':'') h = h"
    by (induction h) auto
  have sp: "split_colon2 ?raw = (decimal n, Some h)"
    by (simp add: split_colon2_colon [OF colon_not_in_decimal] th)
  show ?thesis
    unfolding parseChainIndexBegin_def
    using ne k assms(1) by (simp add: sp parseInt_decimal numberValue_not_NaN del: append.simps)
qed

lemma digit_code: "c \<notin> set ''0123456789'' \<Longrightarrow> \<not> (48 \<le> (of_char c :: nat) \<and> (of_char c :: nat) \<le> 57)"
proof
  assume n: "c \<notin> set ''0123456789''" and b: "48 \<le> (of_char c :: nat) \<and> (of_char c :: nat) \<le> 57"
  have e: "(of_char c :: nat) = of_char d \<Longrightarrow> c = d" for d by simp
  from b consider "(of_char c :: nat) = 48" | "(of_char c :: nat) = 49" | "(of_char c :: nat) = 50"
    | "(of_char c :: nat) = 51" | "(of_char c :: nat) = 52" | "(of_char c :: nat) = 53"
    | "(of_char c :: nat) = 54" | "(of_char c :: nat) = 55" | "(of_char c :: nat) = 56"
    | "(of_char c :: nat) = 57" by atomize_elim presburger
  then have "c \<in> set ''0123456789''"
  proof cases
    case 1 then have "c = CHR ''0''" by (intro e) simp then show ?thesis by simp
  next
    case 2 then have "c = CHR ''1''" by (intro e) simp then show ?thesis by simp
  next
    case 3 then have "c = CHR ''2''" by (intro e) simp then show ?thesis by simp
  next
    case 4 then have "c = CHR ''3''" by (intro e) simp then show ?thesis by simp
  next
    case 5 then have "c = CHR ''4''" by (intro e) simp then show ?thesis by simp
  next
    case 6 then have "c = CHR ''5''" by (intro e) simp then show ?thesis by simp
  next
    case 7 then have "c = CHR ''6''" by (intro e) simp then show ?thesis by simp
  next
    case 8 then have "c = CHR ''7''" by (intro e) simp then show ?thesis by simp
  next
    case 9 then have "c = CHR ''8''" by (intro e) simp then show ?thesis by simp
  next
    case 10 then have "c = CHR ''9''" by (intro e) simp then show ?thesis by simp
  qed
  with n show False by simp
qed

lemma leading_digits_no_digit:
  "c \<notin> set ''0123456789'' \<Longrightarrow> leading_digits 10 (c # cs) = []"
  using digit_code [of c] by (auto simp: digitValue_def Let_def split: option.splits)

lemma parseInt_NaN:
  assumes "s = [] \<or> (hd s \<notin> set ''0123456789+-'' \<and> \<not> isWhiteSpace (of_char (hd s)))"
  shows "parseInt s = NaN"
proof (cases s)
  case Nil then show ?thesis by (simp add: parseInt_def)
next
  case (Cons c cs)
  with assms have c: "c \<notin> set ''0123456789+-''" and ws: "\<not> isWhiteSpace (of_char c)" by simp_all
  from c have d: "c \<notin> set ''0123456789''" and sg: "c \<noteq> CHR ''-''" "c \<noteq> CHR ''+''" and z: "c \<noteq> CHR ''0''"
    by simp_all
  from z have hx: "take 2 (c # cs) \<noteq> ''0x''" "take 2 (c # cs) \<noteq> ''0X''" by (auto simp: take_Cons')
  have dw: "dropWhile (\<lambda>c. isWhiteSpace (of_char c)) (c # cs) = c # cs" using ws by simp
  show ?thesis
    unfolding Cons parseInt_def Let_def dw using sg z by (simp add: leading_digits_no_digit [OF d] del: leading_digits.simps)
qed

lemma parseChainIndexBegin_no_colon:
  assumes "raw \<noteq> []" "raw \<noteq> ''origin''" "raw \<noteq> ''tip''" "CHR '':'' \<notin> set raw"
  shows "parseChainIndexBegin (Some raw) = Inl (Assertion ''Must be <slot>:<hash>'')"
  using assms by (simp add: parseChainIndexBegin_def split_colon2_no_colon)

lemma parseChainIndexBegin_no_hash:
  assumes "CHR '':'' \<notin> set s" "rest = [] \<or> hd rest = CHR '':''"
  shows "parseChainIndexBegin (Some (s @ CHR '':'' # rest)) = Inl (Assertion ''Must be <slot>:<hash>'')"
proof -
  let ?raw = "s @ CHR '':'' # rest"
  have c: "CHR '':'' \<in> set ?raw" by simp
  have ne: "?raw \<noteq> []" by simp
  from colon_not_keyword [OF c] have k: "?raw \<noteq> ''origin''" "?raw \<noteq> ''tip''" by blast+
  from assms(2) have th: "takeWhile (\<lambda>c. c \<noteq> CHR '':'') rest = []" by (cases rest) auto
  show ?thesis
    unfolding parseChainIndexBegin_def
    using ne k by (simp add: split_colon2_colon [OF assms(1)] th del: append.simps)
qed

lemma parseChainIndexBegin_no_slot:
  assumes "CHR '':'' \<notin> set s"
    "s = [] \<or> (hd s \<notin> set ''0123456789+-'' \<and> \<not> isWhiteSpace (of_char (hd s)))"
  shows "parseChainIndexBegin (Some (s @ CHR '':'' # rest)) = Inl (Assertion ''Must be <slot>:<hash>'')"
proof -
  let ?raw = "s @ CHR '':'' # rest"
  have c: "CHR '':'' \<in> set ?raw" by simp
  have ne: "?raw \<noteq> []" by simp
  from colon_not_keyword [OF c] have k: "?raw \<noteq> ''origin''" "?raw \<noteq> ''tip''" by blast+
  show ?thesis
    unfolding parseChainIndexBegin_def
    using ne k by (simp add: split_colon2_colon [OF assms(1)] parseInt_NaN [OF assms(2)] isNaN_def del: append.simps split: option.splits)
qed

lemma chain_explicit:
  assumes "requiredEnv env' ''CHAIN_INDEX_CONFIG'' = Inr path" "load' path = Inr config"
    and "parseChainIndexBegin (env' ''CHAIN_INDEX_BEGIN'') = Inr (Some b)"
    and "parseChainIndexEnd (env' ''CHAIN_INDEX_END'') = Inr e"
  shows "\<exists>cc. chain env' load' = Inr cc \<and> CHAIN_INDEX_BEGIN cc = b"
  unfolding chain_loaded [of env' path load' config, OF assms(1,2)] using assms(3,4) by simp

lemma chain_malformed:
  assumes "requiredEnv env' ''CHAIN_INDEX_CONFIG'' = Inr path" "load' path = Inr config"
    and "parseChainIndexBegin (env' ''CHAIN_INDEX_BEGIN'') = Inl err"
  shows "chain env' load' = Inl err"
  unfolding chain_loaded [of env' path load' config, OF assms(1,2)] using assms(3) by simp

lemma chain_begin_independent:
  assumes "requiredEnv env' ''CHAIN_INDEX_CONFIG'' = Inr path" "load' path = Inr config"
    and "env' ''CHAIN_INDEX_BEGIN'' = Some raw" "raw \<noteq> []"
  shows "map_sum id CHAIN_INDEX_BEGIN (chain env' (\<lambda>p. Inr config'))
       = map_sum id CHAIN_INDEX_BEGIN (chain env' load')"
proof -
  have n: "parseChainIndexBegin (env' ''CHAIN_INDEX_BEGIN'') \<noteq> Inr None"
    using assms(3,4) by (simp add: parseChainIndexBegin_None)
  have l: "(\<lambda>p. Inr config') path = (Inr config' :: error + chain_file)" by simp
  show ?thesis
    unfolding chain_loaded [of env' path load' config, OF assms(1,2)]
      chain_loaded [of env' path "\<lambda>p. Inr config'" config', OF assms(1) l]
    using n by (auto split: sum.splits option.splits)
qed

lemma begin_world_loads:
  "requiredEnv (env (begin_world raw)) ''CHAIN_INDEX_CONFIG'' = Inr ''chain.yaml''"
  "load (begin_world raw) ''chain.yaml'' = Inr \<lparr>bootstrap = [\<lparr>slot = Finite 1, hash = ''h''\<rparr>]\<rparr>"
  "env (begin_world raw) ''CHAIN_INDEX_BEGIN'' = Some raw"
  "parseChainIndexEnd (env (begin_world raw) ''CHAIN_INDEX_END'') = Inr None"
  by (simp_all add: begin_world_def example_world_def requiredEnv_def parseChainIndexEnd_def)

lemma chain_fails_before_start:
  assumes m: "main w argv = (out, st)"
    and sel: "select_indexers (ENV w) argv = (warned, Inr (ws, names))"
    and c: "''chain'' \<in> set names" and f: "chain (env w) (load w) = Inl err"
  shows "list_all (\<lambda>e. \<not> is_start e) (effects st) \<and> (\<exists>e'. out = Threw e')"
proof -
  from select_indexers_Inr(1) [OF sel] c have cn: "''chain'' \<in> named (ENV w) argv" by simp
  then have ne: "argv \<noteq> []" by (auto simp: named_def)
  note cn
  from chain_is_first [OF this] select_indexers_Inr(1) [OF sel]
  obtain rest where names: "names = ''chain'' # rest" by auto
  from ne sel m show ?thesis
  proof (cases rule: main_result)
    case (pre_failed e) then show ?thesis by simp
  next
    case (started st3 r)
    from started(8) run_all_chain_first [OF f, of rest st3] names
    have "r = Some err" "st = st3" by simp_all
    with started(1,9) show ?thesis by simp
  next
    case (none_selected st3 r)
    with names show ?thesis by simp
  qed
qed

section \<open>Properties of the ai.logo indexer\<close>

lemma setup_cases:
  "aiLogoIndexer_setup (snd (aiLogoIndexer_setup db)) = aiLogoIndexer_setup db"
proof (cases "''ai'' \<in> schemas db")
  case False
  then show ?thesis by (simp add: aiLogoIndexer_setup_def create_table_if_not_exists_def)
next
  case True
  show ?thesis
  proof (cases "relations db (''ai'', ''logo'')")
    case None
    with True show ?thesis
      by (cases "relations db (''ai'', ''logo_letter_index'')")
         (simp_all add: aiLogoIndexer_setup_def create_table_if_not_exists_def
            create_index_if_not_exists_def)
  next
    case (Some rel)
    with True show ?thesis
      by (cases rel; cases "relations db (''ai'', ''logo_letter_index'')")
         (simp_all add: aiLogoIndexer_setup_def create_table_if_not_exists_def
            create_index_if_not_exists_def)
  qed
qed

lemma set_select_etags: "set (select_etags rows) = {e. \<exists>c l. (c, l, Some e) \<in> set rows}"
  by (induction rows) (auto simp: select_etags_def split: option.splits)

lemma fold_insert_set: "fold insert xs A = A \<union> set xs"
  by (induction xs arbitrary: A) auto

lemma initialize_fetched:
  "initialize (Inr rows) ctx
     = Inr (ctx\<lparr>fetched := fetched ctx \<union> {e. \<exists>c l. (c, l, Some e) \<in> set rows}\<rparr>)"
  by (simp add: initialize_def fold_insert_set set_select_etags)

lemma scan_contents_Inr:
  "scan_contents F objs (sk, ts) = Inr (sk', ts') \<Longrightarrow>
     ts' = ts @ map task_of (filter (\<lambda>obj. \<not> is_fetched F obj) objs)
     \<and> sk' = sk + length (filter (is_fetched F) objs)"
proof (induction objs arbitrary: sk ts)
  case Nil then show ?case by simp
next
  case (Cons obj objs)
  from Cons.prems obtain k where k: "Key obj = Some k" "k \<noteq> []"
    by (cases "Key obj") (auto split: if_splits)
  show ?case
  proof (cases "is_fetched F obj")
    case True
    then obtain e where e: "ETag obj = Some e" "e \<in> F"
      by (cases "ETag obj") (auto simp: is_fetched_def)
    with Cons.prems k have "scan_contents F objs (sk + 1, ts) = Inr (sk', ts')" by simp
    from Cons.IH [OF this] True show ?thesis by simp
  next
    case False
    have t: "task_of obj = \<lparr>key = k, etag = ETag obj\<rparr>" using k by (simp add: task_of_def)
    from False Cons.prems k have "scan_contents F objs (sk, ts @ [task_of obj]) = Inr (sk', ts')"
      unfolding t by (cases "ETag obj") (auto simp: is_fetched_def split: if_splits)
    from Cons.IH [OF this] False show ?thesis by simp
  qed
qed

lemma scan_contents_total:
  "(\<forall>obj \<in> set objs. \<exists>k. Key obj = Some k \<and> k \<noteq> []) \<Longrightarrow> \<exists>r. scan_contents F objs acc = Inr r"
proof (induction objs arbitrary: acc)
  case Nil then show ?case by simp
next
  case (Cons obj objs)
  obtain sk ts where acc: "acc = (sk, ts)" by (cases acc)
  from Cons.prems obtain k where k: "Key obj = Some k" "k \<noteq> []" by auto
  from Cons.prems have "\<forall>obj \<in> set objs. \<exists>k. Key obj = Some k \<and> k \<noteq> []" by simp
  note ih = Cons.IH [OF this]
  show ?case unfolding acc using k ih by (cases "ETag obj") auto
qed

lemma fetchPages_Inr:
  "fetchPages n s3 bucket F tok (sk, ts) = Some (Inr (sk', ts')) \<Longrightarrow>
     \<exists>objs. listed n s3 bucket tok = Some objs
       \<and> ts' = ts @ map task_of (filter (\<lambda>obj. \<not> is_fetched F obj) objs)
       \<and> sk' = sk + length (filter (is_fetched F) objs)"
proof (induction n arbitrary: tok sk ts)
  case 0 then show ?case by simp
next
  case (Suc n)
  let ?cmd = "\<lparr>Bucket = bucket, Prefix = LOGO_S3_PREFIX, ContinuationToken = tok\<rparr>"
  from Suc.prems obtain res where res: "s3 ?cmd = Inr res"
    by (cases "s3 ?cmd") auto
  with Suc.prems obtain contents where contents: "Contents res = Some contents"
    by (cases "Contents res") auto
  with Suc.prems res obtain sk1 ts1 where scan: "scan_contents F contents (sk, ts) = Inr (sk1, ts1)"
    by (cases "scan_contents F contents (sk, ts)") auto
  note sc = scan_contents_Inr [OF scan]
  show ?case
  proof (cases "NextContinuationToken res")
    case None
    with Suc.prems res contents scan have "sk' = sk1" "ts' = ts1" by simp_all
    with sc None res contents show ?thesis by simp
  next
    case (Some t)
    with Suc.prems res contents scan
    have "fetchPages n s3 bucket F (Some t) (sk1, ts1) = Some (Inr (sk', ts'))" by simp
    from Suc.IH [OF this] obtain objs where
      "listed n s3 bucket (Some t) = Some objs"
      "ts' = ts1 @ map task_of (filter (\<lambda>obj. \<not> is_fetched F obj) objs)"
      "sk' = sk1 + length (filter (is_fetched F) objs)" by blast
    with sc Some res contents show ?thesis by simp
  qed
qed

lemma fetchPages_total:
  "listed n s3 bucket tok = Some objs \<Longrightarrow> (\<forall>obj \<in> set objs. \<exists>k. Key obj = Some k \<and> k \<noteq> [])
     \<Longrightarrow> \<exists>r. fetchPages n s3 bucket F tok acc = Some (Inr r)"
proof (induction n arbitrary: tok objs acc)
  case 0 then show ?case by simp
next
  case (Suc n)
  let ?cmd = "\<lparr>Bucket = bucket, Prefix = LOGO_S3_PREFIX, ContinuationToken = tok\<rparr>"
  from Suc.prems(1) obtain res where res: "s3 ?cmd = Inr res"
    by (cases "s3 ?cmd") auto
  with Suc.prems(1) obtain contents where contents: "Contents res = Some contents"
    by (cases "Contents res") auto
  show ?case
  proof (cases "NextContinuationToken res")
    case None
    with Suc.prems(1) res contents have "objs = contents" by simp
    with Suc.prems(2) scan_contents_total obtain r where "scan_contents F contents acc = Inr r" by blast
    with None res contents show ?thesis by simp
  next
    case (Some t)
    with Suc.prems(1) res contents obtain more' where m: "listed n s3 bucket (Some t) = Some more'"
      "objs = contents @ more'" by auto
    with Suc.prems(2) have c: "\<forall>obj \<in> set contents. \<exists>k. Key obj = Some k \<and> k \<noteq> []"
      and mo: "\<forall>obj \<in> set more'. \<exists>k. Key obj = Some k \<and> k \<noteq> []" by auto
    from scan_contents_total [OF c] obtain r where r: "scan_contents F contents acc = Inr r" by blast
    from Suc.IH [OF m(1) mo] obtain r' where "fetchPages n s3 bucket F (Some t) r = Some (Inr r')" by blast
    with r Some res contents show ?thesis by simp
  qed
qed

section \<open>The claims\<close>

text \<open>
  Claim C8. Every argument that ends in a dot is replaced by the registered names that
  start with it: the expanded arguments are the concatenation of the expansions, and the
  indexers selected are the registered names the arguments stand for, in registry order.
  An argument ending in a dot that no registered name starts with, and an argument that is
  neither \<open>all\<close>, \<open>setup\<close> nor a registered name, make the program throw, and no
  start call of an indexer has been made.
\<close>

theorem argument_expansion_and_unknown_names:
  "(expandArgs args = Inr xs \<longrightarrow> xs = concat (map expansion args))
   \<and> (select_indexers (ENV w) argv = (warned, Inr (ws, names)) \<longrightarrow>
        names = filter (\<lambda>k. k \<in> named (ENV w) argv) AllIndexerKeys)
   \<and> (\<forall>arg \<in> set argv.
         (endsWith arg ''.'' \<and> (\<forall>k \<in> set AllIndexerKeys. \<not> startsWith k arg))
         \<or> (\<not> endsWith arg ''.'' \<and> arg \<notin> {''setup'', ''all''} \<union> set AllIndexerKeys)
         \<longrightarrow> (\<exists>a \<in> set argv. fst (main w argv) = Threw (Error (''No indexer with prefix: '' @ a))
                              \<or> fst (main w argv) = Threw (Error (''Unexpected indexer: '' @ a)))
             \<and> list_all (\<lambda>e. \<not> is_start e) (effects (snd (main w argv))))"
proof (intro conjI impI ballI)
  assume "expandArgs args = Inr xs"
  then show "xs = concat (map expansion args)" by (simp add: expandArgs_Inr)
next
  assume "select_indexers (ENV w) argv = (warned, Inr (ws, names))"
  then show "names = filter (\<lambda>k. k \<in> named (ENV w) argv) AllIndexerKeys"
    by (rule select_indexers_Inr)
next
  fix arg
  assume arg: "arg \<in> set argv"
    and bad: "(endsWith arg ''.'' \<and> (\<forall>k \<in> set AllIndexerKeys. \<not> startsWith k arg))
         \<or> (\<not> endsWith arg ''.'' \<and> arg \<notin> {''setup'', ''all''} \<union> set AllIndexerKeys)"
  from bad have "(endsWith arg ''.'' \<and> expansion arg = []) \<or>
         (\<not> endsWith arg ''.'' \<and> arg \<notin> {''setup'', ''all''} \<union> set AllIndexerKeys)"
    by (auto simp: expansion_def filter_empty_conv)
  from select_indexers_fails [OF arg this] obtain warned' err
    where sel: "select_indexers (ENV w) argv = (warned', Inl err)" by blast
  from arg have ne: "argv \<noteq> []" by auto
  note m = main_select_Inl [OF ne sel]
  from select_indexers_Inl [OF sel]
  have "\<exists>a \<in> set argv. err = Error (''No indexer with prefix: '' @ a) \<or> err = Error (''Unexpected indexer: '' @ a)"
    by blast
  then show "\<exists>a \<in> set argv. fst (main w argv) = Threw (Error (''No indexer with prefix: '' @ a))
                              \<or> fst (main w argv) = Threw (Error (''Unexpected indexer: '' @ a))"
    unfolding m by simp
  show "list_all (\<lambda>e. \<not> is_start e) (effects (snd (main w argv)))"
    unfolding m by (simp add: warnings_not_start)
qed

theorem argument_expansion_and_unknown_names_witness:
  "expandArgs [''ai.'', ''chain'']
     = Inr [''ai.logo'', ''ai.podcast'', ''ai.ocr'', ''ai.project_moderation'', ''chain'']
   \<and> [''ai.logo'', ''ai.podcast'', ''ai.ocr'', ''ai.project_moderation'', ''chain'']
     = concat (map expansion [''ai.'', ''chain''])
   \<and> select_indexers development [''ai.'', ''chain'']
     = ([], Inr (False, [''chain'', ''ai.logo'', ''ai.podcast'', ''ai.ocr'', ''ai.project_moderation'']))
   \<and> [''chain'', ''ai.logo'', ''ai.podcast'', ''ai.ocr'', ''ai.project_moderation'']
     = filter (\<lambda>k. k \<in> named development [''ai.'', ''chain'']) AllIndexerKeys
   \<and> ''bogus'' \<in> set [''setup'', ''bogus'']
   \<and> \<not> endsWith ''bogus'' ''.''
   \<and> ''bogus'' \<notin> {''setup'', ''all''} \<union> set AllIndexerKeys
   \<and> (\<exists>a \<in> set [''setup'', ''bogus''].
         fst (main example_world [''setup'', ''bogus'']) = Threw (Error (''No indexer with prefix: '' @ a))
         \<or> fst (main example_world [''setup'', ''bogus'']) = Threw (Error (''Unexpected indexer: '' @ a)))
   \<and> list_all (\<lambda>e. \<not> is_start e) (effects (snd (main example_world [''setup'', ''bogus''])))"
proof -
  have e1: "expandArgs [''ai.'', ''chain'']
     = Inr [''ai.logo'', ''ai.podcast'', ''ai.ocr'', ''ai.project_moderation'', ''chain'']"
    by code_simp
  have env: "ENV example_world = development" by (simp add: example_world_def)
  have e2: "select_indexers development [''ai.'', ''chain'']
     = ([], Inr (False, [''chain'', ''ai.logo'', ''ai.podcast'', ''ai.ocr'', ''ai.project_moderation'']))"
    by code_simp
  have b1: "''bogus'' \<in> set [''setup'', ''bogus'']" by simp
  have b2: "\<not> endsWith ''bogus'' ''.''" by (simp add: endsWith_def)
  have b3: "''bogus'' \<notin> {''setup'', ''all''} \<union> set AllIndexerKeys" by (simp add: AllIndexerKeys_def)
  note t1 = argument_expansion_and_unknown_names
    [of "[''ai.'', ''chain'']" _ example_world "[''ai.'', ''chain'']" "[]" False
        "[''chain'', ''ai.logo'', ''ai.podcast'', ''ai.ocr'', ''ai.project_moderation'']", unfolded env]
  note t2 = argument_expansion_and_unknown_names
    [of "[]" "[]" example_world "[''setup'', ''bogus'']" "[]" False "[]"]
  note c1 = t1 [THEN conjunct1, THEN mp, OF e1]
  note c2 = t1 [THEN conjunct2, THEN conjunct1, THEN mp, OF e2]
  note c3 = t2 [THEN conjunct2, THEN conjunct2, THEN bspec, OF b1, THEN mp, OF disjI2, OF conjI, OF b2 b3]
  show ?thesis
    apply (intro conjI)
            apply (rule e1)
           apply (rule c1)
          apply (rule e2)
         apply (rule c2)
        apply (rule b1)
       apply (rule b2)
      apply (rule b3)
     apply (rule c3 [THEN conjunct1])
    apply (rule c3 [THEN conjunct2])
    done
qed

text \<open>
  Claim C3. The indexers are started one after the other, and the callback of each is
  collected once it has started. When the exit handler runs, the stop calls it makes and
  the release of the connections are, in this order, an initial part of: the calls of the
  collected callbacks in the reverse of the order in which their indexers were started,
  each callback's calls together, then the release of the connections. When the handler
  completes they are all of it, and the connections are released only when every
  callback has made all its calls.
\<close>

theorem shutdown_in_reverse_start_order:
  assumes "shutdowns st0 = []"
    and "run_all w names st0 = (r0, st)"
    and "prexit_handler w signal h st = (r, st')"
  shows "\<exists>k rest. k \<le> length names \<and> (r0 = None \<longrightarrow> k = length names)
           \<and> shutdowns st = map shutdown_of (take k names)
           \<and> concat (map (stop_calls (willSaveCheckpoint st)) (rev (map shutdown_of (take k names))))
                @ [ConnectionsCleanup]
              = filter is_release (since st st') @ rest
           \<and> (r = None \<longrightarrow> rest = [])
           \<and> (ConnectionsCleanup \<in> set (since st st') \<longrightarrow> rest = [])"
proof -
  from run_all_result [OF assms(2)] assms(1) obtain k where
    k: "k \<le> length names" "r0 = None \<longrightarrow> k = length names" "shutdowns st = map shutdown_of (take k names)"
    by auto
  let ?full = "concat (map (stop_calls (willSaveCheckpoint st)) (rev (shutdowns st)))"
  from prexit_handler_since(1) [OF assms(3)] obtain rest where
    rest: "?full @ [ConnectionsCleanup] = filter is_release (since st st') @ rest" "r = None \<longrightarrow> rest = []"
    by blast
  have "rest = []" if "ConnectionsCleanup \<in> set (since st st')"
  proof -
    from that have "ConnectionsCleanup \<in> set (filter is_release (since st st'))"
      by (simp add: is_release_def)
    from prefix_with_last [OF rest(1) this cleanup_not_in_stops] show ?thesis by simp
  qed
  with k rest show ?thesis unfolding k(3) [symmetric] rev_map [symmetric]
    by (intro exI [of _ k] exI [of _ rest]) (simp add: k(3))
qed

theorem shutdown_in_reverse_start_order_witness:
  "shutdowns (initial\<lparr>RUN_AT := True\<rparr>) = []
   \<and> fst (run_all example_world [''chain'', ''ipfs.project_info''] (initial\<lparr>RUN_AT := True\<rparr>)) = None
   \<and> fst (prexit_handler example_world ''SIGTERM'' True started_example) = None
   \<and> filter is_release
        (since started_example (snd (prexit_handler example_world ''SIGTERM'' True started_example)))
      = [PollingStop ''ipfs.project_info'', ChainStop True True, StakingStop, ConnectionsCleanup]
   \<and> (\<exists>k rest. k \<le> length [''chain'', ''ipfs.project_info'']
           \<and> (fst (run_all example_world [''chain'', ''ipfs.project_info''] (initial\<lparr>RUN_AT := True\<rparr>)) = None
                \<longrightarrow> k = length [''chain'', ''ipfs.project_info''])
           \<and> shutdowns started_example = map shutdown_of (take k [''chain'', ''ipfs.project_info''])
           \<and> concat (map (stop_calls (willSaveCheckpoint started_example))
                        (rev (map shutdown_of (take k [''chain'', ''ipfs.project_info'']))))
                @ [ConnectionsCleanup]
              = filter is_release
                  (since started_example (snd (prexit_handler example_world ''SIGTERM'' True started_example)))
                @ rest
           \<and> (fst (prexit_handler example_world ''SIGTERM'' True started_example) = None \<longrightarrow> rest = [])
           \<and> (ConnectionsCleanup
                 \<in> set (since started_example (snd (prexit_handler example_world ''SIGTERM'' True started_example)))
                \<longrightarrow> rest = []))"
proof -
  have h1: "shutdowns (initial\<lparr>RUN_AT := True\<rparr>) = []" by (simp add: initial_def)
  have h2: "run_all example_world [''chain'', ''ipfs.project_info''] (initial\<lparr>RUN_AT := True\<rparr>)
      = (fst (run_all example_world [''chain'', ''ipfs.project_info''] (initial\<lparr>RUN_AT := True\<rparr>)),
         started_example)"
    by (simp add: started_example_def)
  have h3: "prexit_handler example_world ''SIGTERM'' True started_example
      = (fst (prexit_handler example_world ''SIGTERM'' True started_example),
         snd (prexit_handler example_world ''SIGTERM'' True started_example))"
    by simp
  have e1: "fst (run_all example_world [''chain'', ''ipfs.project_info''] (initial\<lparr>RUN_AT := True\<rparr>)) = None"
    by code_simp
  have e2: "fst (prexit_handler example_world ''SIGTERM'' True started_example) = None"
    by code_simp
  have e3: "filter is_release
        (since started_example (snd (prexit_handler example_world ''SIGTERM'' True started_example)))
      = [PollingStop ''ipfs.project_info'', ChainStop True True, StakingStop, ConnectionsCleanup]"
    by code_simp
  note t = shutdown_in_reverse_start_order [OF h1 h2 h3]
  show ?thesis
    apply (intro conjI)
        apply (rule h1)
       apply (rule e1)
      apply (rule e2)
     apply (rule e3)
    apply (rule t)
    done
qed

text \<open>
  Claim C2. The callback of the control channel clears the flag \<open>willSaveCheckpoint\<close>
  before it asks for the exit, so every stop call of the chain indexer made after a
  \<open>reload\<close> payload is \<open>stop({immediate: true, saveCheckpoint: false})\<close>, and it is
  made when the chain indexer's callback is among those collected and the handler
  completes. The main program leaves the flag set and so does any other payload, and in
  a state where the flag is set every stop call of the chain indexer that the exit
  handler makes, for any signal, is \<open>stop({immediate: true, saveCheckpoint: true})\<close>.
\<close>

theorem chain_stop_checkpoint_flag:
  "(listen_callback w ''reload'' st = (r, st') \<longrightarrow>
      list_all (chain_stop_with False) (since st st')
      \<and> (r = None \<and> ChainShutdown \<in> set (shutdowns st) \<longrightarrow> ChainStop True False \<in> set (since st st')))
   \<and> (willSaveCheckpoint st \<and> prexit_handler w signal h st = (r, st') \<longrightarrow>
      list_all (chain_stop_with True) (since st st')
      \<and> (r = None \<and> ChainShutdown \<in> set (shutdowns st) \<longrightarrow> ChainStop True True \<in> set (since st st')))
   \<and> (main w argv = (out, st) \<longrightarrow> willSaveCheckpoint st)
   \<and> (payload \<noteq> ''reload'' \<and> listen_callback w payload st = (r, st') \<longrightarrow>
        willSaveCheckpoint st' = willSaveCheckpoint st)"
proof (intro conjI impI)
  assume a: "listen_callback w ''reload'' st = (r, st')"
  let ?st1 = "(emit (ConsoleLog ''Received signal: reload'') st)\<lparr>willSaveCheckpoint := False, exitCode := Some 174\<rparr>"
  note l = listen_callback_reload [OF a]
  from handler_chain_stops(1) [OF l(1)] have "list_all (chain_stop_with False) (since ?st1 st')" by simp
  then show "list_all (chain_stop_with False) (since st st')"
    unfolding l(2) by (simp add: chain_stop_with_def)
  assume "r = None \<and> ChainShutdown \<in> set (shutdowns st)"
  then have "r = None" "ChainShutdown \<in> set (shutdowns ?st1)" by simp_all
  from handler_chain_stops(2) [OF l(1) this] show "ChainStop True False \<in> set (since st st')"
    unfolding l(2) by simp
next
  assume a: "willSaveCheckpoint st \<and> prexit_handler w signal h st = (r, st')"
  then have f: "willSaveCheckpoint st = True" and hd: "prexit_handler w signal h st = (r, st')" by simp_all
  from handler_chain_stops(1) [OF hd] show "list_all (chain_stop_with True) (since st st')"
    unfolding f .
  assume "r = None \<and> ChainShutdown \<in> set (shutdowns st)"
  then have "r = None" "ChainShutdown \<in> set (shutdowns st)" by simp_all
  from handler_chain_stops(2) [OF hd this] show "ChainStop True True \<in> set (since st st')"
    unfolding f .
next
  assume "main w argv = (out, st)"
  then show "willSaveCheckpoint st" by (rule main_flag)
next
  assume "payload \<noteq> ''reload'' \<and> listen_callback w payload st = (r, st')"
  then show "willSaveCheckpoint st' = willSaveCheckpoint st"
    by (auto simp: listen_callback_other)
qed

theorem chain_stop_checkpoint_flag_witness:
  "fst (listen_callback example_world ''reload'' started_example) = None
   \<and> ChainShutdown \<in> set (shutdowns started_example)
   \<and> list_all (chain_stop_with False)
        (since started_example (snd (listen_callback example_world ''reload'' started_example)))
   \<and> ChainStop True False
        \<in> set (since started_example (snd (listen_callback example_world ''reload'' started_example)))
   \<and> willSaveCheckpoint started_example
   \<and> fst (prexit_handler example_world ''SIGTERM'' True started_example) = None
   \<and> list_all (chain_stop_with True)
        (since started_example (snd (prexit_handler example_world ''SIGTERM'' True started_example)))
   \<and> ChainStop True True
        \<in> set (since started_example (snd (prexit_handler example_world ''SIGTERM'' True started_example)))
   \<and> willSaveCheckpoint (snd (main example_world [''chain'']))
   \<and> ''ping'' \<noteq> ''reload''
   \<and> willSaveCheckpoint (snd (listen_callback example_world ''ping'' started_example))
       = willSaveCheckpoint started_example"
proof -
  let ?lc = "listen_callback example_world ''reload'' started_example"
  let ?ph = "prexit_handler example_world ''SIGTERM'' True started_example"
  let ?lp = "listen_callback example_world ''ping'' started_example"
  have c1: "fst ?lc = None" by code_simp
  have c2: "ChainShutdown \<in> set (shutdowns started_example)" by code_simp
  have c3: "willSaveCheckpoint started_example" by code_simp
  have c4: "fst ?ph = None" by code_simp
  have c5: "''ping'' \<noteq> ''reload''" by simp
  have p1: "?lc = (fst ?lc, snd ?lc)" by simp
  have p2: "?ph = (fst ?ph, snd ?ph)" by simp
  have p3: "main example_world [''chain''] = (fst (main example_world [''chain'']), snd (main example_world [''chain'']))"
    by simp
  have p4: "?lp = (fst ?lp, snd ?lp)" by simp
  note t1 = chain_stop_checkpoint_flag
    [of example_world started_example "fst ?lc" "snd ?lc", THEN conjunct1, THEN mp, OF p1]
  note t2 = chain_stop_checkpoint_flag
    [of example_world started_example "fst ?ph" "snd ?ph" "''SIGTERM''" True,
     THEN conjunct2, THEN conjunct1, THEN mp, OF conjI, OF c3 p2]
  note t3 = chain_stop_checkpoint_flag
    [of example_world "snd (main example_world [''chain''])" _ _ _ _ "[''chain'']"
        "fst (main example_world [''chain''])",
     THEN conjunct2, THEN conjunct2, THEN conjunct1, THEN mp, OF p3]
  note t4 = chain_stop_checkpoint_flag
    [of example_world started_example "fst ?lp" "snd ?lp" _ _ _ _ "''ping''",
     THEN conjunct2, THEN conjunct2, THEN conjunct2, THEN mp, OF conjI, OF c5 p4]
  show ?thesis
    apply (intro conjI)
              apply (rule c1)
             apply (rule c2)
            apply (rule t1 [THEN conjunct1])
           apply (rule t1 [THEN conjunct2, THEN mp, OF conjI, OF c1 c2])
          apply (rule c3)
         apply (rule c4)
        apply (rule t2 [THEN conjunct1])
       apply (rule t2 [THEN conjunct2, THEN mp, OF conjI, OF c4 c2])
      apply (rule t3)
     apply (rule c5)
    apply (rule t4)
    done
qed



text \<open>
  Claim C4. With the single argument \<open>bogus\<close>, which is no registered indexer, the
  main program throws \<open>Unexpected indexer: bogus\<close> before the declaration of
  \<open>RUN_AT\<close> on line 327 has run. The exit handler, called for this uncaught
  exception, throws at its first statement, which reads \<open>RUN_AT\<close>: the assignment
  of the exit code on lines 46-47 is not reached, and \<open>process.exitCode\<close> is still
  unset.
\<close>

theorem unknown_indexer_exit_code_unset:
  "main w [''bogus''] = (Threw (Error ''Unexpected indexer: bogus''), initial)
   \<and> prexit_handler w ''uncaughtException'' True initial = (Some (ReferenceError ''RUN_AT''), initial)
   \<and> exitCode initial = None"
proof -
  have "main w [''bogus''] = (Threw (Error ''Unexpected indexer: bogus''), initial\<lparr>effects := map (disabled_warning (ENV w)) []\<rparr>)"
    by (rule main_select_Inl) (simp_all add: bogus_selected)
  moreover have "initial\<lparr>effects := []\<rparr> = initial" by (simp add: initial_def)
  moreover have "\<not> RUN_AT initial" by (simp add: initial_def)
  moreover have "exitCode initial = None" by (simp add: initial_def)
  ultimately show ?thesis by (simp add: prexit_handler_early)
qed

text \<open>
  Claim C9. When \<open>all\<close> is among the arguments, the selection sets \<open>willSetup\<close>
  whether or not \<open>setup\<close> was passed. In the effects of the main program either no
  indexer has been started at all, or the complete setup phase (the schemas, the setup of
  every registered indexer, the admin tables, the migration tables, the views) comes before
  the first start call; and when the indexers run it is the latter.
\<close>

theorem all_implies_setup:
  assumes "''all'' \<in> set argv" and "main w argv = (out, st)"
  shows "(select_indexers (ENV w) argv = (warned, Inr (ws, names)) \<longrightarrow> ws)
       \<and> (list_all (\<lambda>e. \<not> is_start e) (effects st)
          \<or> (\<exists>pre post. effects st = pre @ setup_effects @ post
                \<and> list_all (\<lambda>e. \<not> is_start e) pre))
       \<and> (out = Running \<longrightarrow>
            (\<exists>pre post. effects st = pre @ setup_effects @ post
                \<and> list_all (\<lambda>e. \<not> is_start e) pre))"
proof -
  from assms(1) have ne: "argv \<noteq> []" by auto
  have 1: "select_indexers (ENV w) argv = (warned, Inr (ws, names)) \<longrightarrow> ws"
    using select_indexers_Inr(2) assms(1) by blast
  obtain wn sel where sel: "select_indexers (ENV w) argv = (wn, sel)"
    by (cases "select_indexers (ENV w) argv")
  have "(list_all (\<lambda>e. \<not> is_start e) (effects st)
          \<or> (\<exists>pre post. effects st = pre @ setup_effects @ post
                \<and> list_all (\<lambda>e. \<not> is_start e) pre))
       \<and> (out = Running \<longrightarrow>
            (\<exists>pre post. effects st = pre @ setup_effects @ post
                \<and> list_all (\<lambda>e. \<not> is_start e) pre))"
  proof (cases sel)
    case (Inl e)
    from main_select_Inl [OF ne sel [unfolded Inl]] assms(2) show ?thesis
      by (auto simp: warnings_not_start)
  next
    case (Inr p)
    obtain s ns where p: "p = (s, ns)" by (cases p)
    note sel' = sel [unfolded Inr p]
    from select_indexers_Inr(2) [OF sel'] assms(1) have s: s by simp
    from main_effects [OF ne sel' assms(2)] s obtain pre post where
      e: "effects st = pre @ post" and np: "list_all (\<lambda>e. \<not> is_start e) pre"
      and su: "post \<noteq> [] \<or> out = Running \<longrightarrow> (\<exists>p. pre = p @ setup_effects)"
      by blast
    show ?thesis
    proof (cases "post \<noteq> [] \<or> out = Running")
      case True
      with su obtain q where q: "pre = q @ setup_effects" by blast
      with e np have "effects st = q @ setup_effects @ post" "list_all (\<lambda>e. \<not> is_start e) q"
        by simp_all
      then show ?thesis by blast
    next
      case False
      with e np show ?thesis by simp
    qed
  qed
  with 1 show ?thesis by simp
qed

theorem all_implies_setup_witness:
  "''all'' \<in> set [''all'']
   \<and> select_indexers (ENV example_world) [''all'']
       = (disabled development, Inr (True, [''chain'', ''ipfs.project_info'', ''ipfs.project_announcement'']))
   \<and> fst (main example_world [''all'']) = Running
   \<and> (\<exists>pre post. effects (snd (main example_world [''all''])) = pre @ setup_effects @ post
          \<and> list_all (\<lambda>e. \<not> is_start e) pre)"
proof -
  have a1: "''all'' \<in> set [''all'']" by simp
  have env: "ENV example_world = development" by (simp add: example_world_def)
  have sel: "select_indexers (ENV example_world) [''all'']
       = (disabled development, Inr (True, [''chain'', ''ipfs.project_info'', ''ipfs.project_announcement'']))"
    unfolding env by (rule select_all_development)
  have nr: "\<forall>hist e. \<not> rejects example_world hist e" by (simp add: example_world_def)
  have run: "fst (main example_world [''all'']) = Running"
    by (rule main_runs [OF nr configured_example sel]) simp_all
  have p: "main example_world [''all'']
      = (fst (main example_world [''all'']), snd (main example_world [''all'']))" by simp
  note t = all_implies_setup
    [of "[''all'']" example_world "fst (main example_world [''all''])" "snd (main example_world [''all''])"
        "disabled development" True "[''chain'', ''ipfs.project_info'', ''ipfs.project_announcement'']",
     OF a1 p]
  show ?thesis
    apply (intro conjI)
       apply (rule a1)
      apply (rule sel)
     apply (rule run)
    apply (rule t [THEN conjunct2, THEN conjunct2, THEN mp, OF run])
    done
qed

text \<open>
  Claim C10. In the development environment, with \<open>all\<close> among the arguments, a
  registered indexer whose name starts with \<open>ai.\<close> or \<open>discord.\<close> is reported by
  the warning and is not added: unless an argument stands for it, no start call of it is
  made. In any environment an indexer named by an argument of its own is among the
  selected ones, and it has been started when the indexers run.
\<close>

theorem disabled_in_development:
  assumes "main w argv = (out, st)"
  shows "(ENV w = development \<and> ''all'' \<in> set argv \<and> k \<in> set AllIndexerKeys
            \<and> (startsWith k ''ai.'' \<or> startsWith k ''discord.'') \<longrightarrow>
          disabled_warning development k \<in> set (effects st)
          \<and> ((\<forall>arg \<in> set argv. k \<notin> set (expansion arg)) \<longrightarrow>
               list_all (\<lambda>e. \<not> start_of k e) (effects st)))
       \<and> (k \<in> set AllIndexerKeys \<and> k \<in> set argv
            \<and> select_indexers (ENV w) argv = (warned, Inr (ws, names)) \<longrightarrow> k \<in> set names)
       \<and> (k \<in> set AllIndexerKeys \<and> k \<in> set argv \<and> out = Running \<longrightarrow>
            (\<exists>e \<in> set (effects st). start_of k e))"
proof (intro conjI impI)
  assume a: "ENV w = development \<and> ''all'' \<in> set argv \<and> k \<in> set AllIndexerKeys
            \<and> (startsWith k ''ai.'' \<or> startsWith k ''discord.'')"
  then have env: "ENV w = development" and all: "''all'' \<in> set argv"
    and dis: "k \<in> set (disabled development)" by (simp_all add: disabled_development)
  from all have ne: "argv \<noteq> []" by auto
  obtain wn sel where sel: "select_indexers (ENV w) argv = (wn, sel)"
    by (cases "select_indexers (ENV w) argv")
  from select_warned [of "ENV w" argv] sel all env
  have wn: "wn = filter (\<lambda>k. k \<in> set (disabled development)) AllIndexerKeys" by simp
  with a dis have kw: "k \<in> set wn" by simp
  have "disabled_warning development k \<in> set (effects st)
      \<and> ((\<forall>arg \<in> set argv. k \<notin> set (expansion arg)) \<longrightarrow> list_all (\<lambda>e. \<not> start_of k e) (effects st))"
  proof (cases sel)
    case (Inl e)
    from main_select_Inl [OF ne sel [unfolded Inl]] assms
    have "effects st = map (disabled_warning development) wn" by (simp add: env)
    with kw show ?thesis by (auto simp: list_all_iff warning_not_start_of)
  next
    case (Inr p)
    obtain s ns where p: "p = (s, ns)" by (cases p)
    note sel' = sel [unfolded Inr p]
    from main_effects [OF ne sel' assms] obtain pre post x where
      e: "effects st = pre @ post" and np: "list_all (\<lambda>e. \<not> is_start e) pre"
      and w: "pre = map (disabled_warning (ENV w)) wn @ x"
      and po: "list_all (\<lambda>e. is_start e \<longrightarrow> (\<exists>n \<in> set ns. start_of n e)) post"
      by blast
    from e w kw env have 1: "disabled_warning development k \<in> set (effects st)" by simp
    have 2: "list_all (\<lambda>e. \<not> start_of k e) (effects st)" if h: "\<forall>arg \<in> set argv. k \<notin> set (expansion arg)"
    proof -
      have "k \<notin> named development argv"
        using h dis all by (simp add: named_def)
      with select_indexers_Inr(1) [OF sel'] env have kn: "k \<notin> set ns" by simp
      have "\<not> start_of k e" if "e \<in> set pre" for e
        using np that start_of_is_start by (auto simp: list_all_iff)
      moreover have "\<not> start_of k e" if "e \<in> set post" for e
      proof
        assume sk: "start_of k e"
        then have "is_start e" by (rule start_of_is_start)
        with po that obtain n where "n \<in> set ns" "start_of n e" by (auto simp: list_all_iff)
        with sk kn start_of_inj show False by blast
      qed
      ultimately show ?thesis unfolding e by (auto simp: list_all_iff)
    qed
    from 1 2 show ?thesis by blast
  qed
  then show "disabled_warning development k \<in> set (effects st)"
    and "(\<forall>arg \<in> set argv. k \<notin> set (expansion arg)) \<Longrightarrow> list_all (\<lambda>e. \<not> start_of k e) (effects st)"
    by blast+
next
  assume a: "k \<in> set AllIndexerKeys \<and> k \<in> set argv
            \<and> select_indexers (ENV w) argv = (warned, Inr (ws, names))"
  then have "k \<in> named (ENV w) argv" by (simp add: named_explicit)
  with a select_indexers_Inr(1) [of "ENV w" argv warned ws names] show "k \<in> set names" by simp
next
  assume a: "k \<in> set AllIndexerKeys \<and> k \<in> set argv \<and> out = Running"
  with assms have m: "main w argv = (Running, st)" by simp
  from m obtain wn s ns st3 where sel: "select_indexers (ENV w) argv = (wn, Inr (s, ns))"
    and ra: "run_all w ns st3 = (None, st)" by (rule main_Running)
  from a have "k \<in> named (ENV w) argv" by (simp add: named_explicit)
  with a select_indexers_Inr(1) [OF sel] have "k \<in> set ns" by simp
  from run_all_started [OF ra this] show "\<exists>e \<in> set (effects st). start_of k e" .
qed

theorem disabled_in_development_witness:
  "ENV example_world = development
   \<and> ''all'' \<in> set [''all'']
   \<and> ''ai.logo'' \<in> set AllIndexerKeys
   \<and> startsWith ''ai.logo'' ''ai.''
   \<and> disabled_warning development ''ai.logo'' \<in> set (effects (snd (main example_world [''all''])))
   \<and> ''ai.logo'' \<notin> set (expansion ''all'')
   \<and> list_all (\<lambda>e. \<not> start_of ''ai.logo'' e) (effects (snd (main example_world [''all''])))
   \<and> ENV ai_world = development
   \<and> ''ai.logo'' \<in> set [''ai.logo'']
   \<and> select_indexers (ENV ai_world) [''ai.logo''] = ([], Inr (False, [''ai.logo'']))
   \<and> fst (main ai_world [''ai.logo'']) = Running
   \<and> (\<exists>e \<in> set (effects (snd (main ai_world [''ai.logo'']))). start_of ''ai.logo'' e)"
proof -
  let ?m1 = "main example_world [''all'']"
  let ?m2 = "main ai_world [''ai.logo'']"
  have env: "ENV example_world = development" by (simp add: example_world_def)
  have env2: "ENV ai_world = development" by (simp add: ai_world_def example_world_def)
  have all: "''all'' \<in> set [''all'']" by simp
  have kk: "''ai.logo'' \<in> set AllIndexerKeys" by (simp add: AllIndexerKeys_def)
  have sw: "startsWith ''ai.logo'' ''ai.''" by (simp add: startsWith_def)
  have ex: "''ai.logo'' \<notin> set (expansion ''all'')" by (simp add: expansion_def endsWith_def)
  then have h: "\<forall>arg \<in> set [''all'']. ''ai.logo'' \<notin> set (expansion arg)" by simp
  have in2: "''ai.logo'' \<in> set [''ai.logo'']" by simp
  have "select_indexers development [''ai.logo''] = ([], Inr (False, [''ai.logo'']))"
    by code_simp
  then have sel: "select_indexers (ENV ai_world) [''ai.logo''] = ([], Inr (False, [''ai.logo'']))"
    by (simp only: env2)
  have nr: "\<forall>hist e. \<not> rejects ai_world hist e" by (simp add: ai_world_def example_world_def)
  have run: "fst ?m2 = Running"
    by (rule main_runs [OF nr configured_ai_logo sel]) simp_all
  have p1: "?m1 = (fst ?m1, snd ?m1)" by simp
  have p2: "?m2 = (fst ?m2, snd ?m2)" by simp
  note t1 = disabled_in_development
    [of example_world "[''all'']" "fst ?m1" "snd ?m1" "''ai.logo''", OF p1,
     THEN conjunct1, THEN mp, OF conjI, OF env conjI, OF all conjI, OF kk disjI1, OF sw]
  note t2 = disabled_in_development
    [of ai_world "[''ai.logo'']" "fst ?m2" "snd ?m2" "''ai.logo''" "[]" False "[''ai.logo'']", OF p2]
  show ?thesis
    apply (intro conjI)
               apply (rule env)
              apply (rule all)
             apply (rule kk)
            apply (rule sw)
           apply (rule t1 [THEN conjunct1])
          apply (rule ex)
         apply (rule t1 [THEN conjunct2, THEN mp, OF h])
        apply (rule env2)
       apply (rule in2)
      apply (rule sel)
     apply (rule run)
    apply (rule t2 [THEN conjunct2, THEN conjunct2, THEN mp, OF conjI, OF kk conjI, OF in2 run])
    done
qed

text \<open>
  Claim C1, as amended. Let the chain configuration file load, and let the end position
  parse. When \<open>CHAIN_INDEX_BEGIN\<close> is \<open>origin\<close> or \<open>tip\<close>, the begin position of
  \<open>config.chain()\<close> is that keyword; when it is \<open>n:h\<close>, with \<open>n\<close> the decimal text of
  a natural number and \<open>h\<close> a non-empty text without a colon, it is the point with the
  hash \<open>h\<close> and the slot \<open>n\<close> as a number, which is \<open>n\<close> itself below 2^53. With
  \<open>CHAIN_INDEX_BEGIN\<close> unset or empty it is the first configured bootstrap point, and
  when there is none \<open>config.chain()\<close> throws the error that names
  \<open>CHAIN_INDEX_BEGIN\<close> and \<open>bootstrap\<close>. A value that is not empty, not a keyword and
  has no colon, or has nothing between its first colon and the next, or has before its
  first colon nothing or a text that starts with neither a digit, a sign nor white space,
  makes \<open>config.chain()\<close> throw \<open>Must be <slot>:<hash>\<close>, also when a bootstrap point
  is configured. For every value that is set and not empty, the begin position or the
  error of \<open>config.chain()\<close> is the same whatever the bootstrap points are. When
  \<open>config.chain()\<close> throws and the chain indexer is selected, the main program throws
  and no start call of any indexer has been made.
\<close>

theorem begin_precedence:
  assumes "requiredEnv (env w) ''CHAIN_INDEX_CONFIG'' = Inr path" and "load w path = Inr config"
  shows "(env w ''CHAIN_INDEX_BEGIN'' = Some ''origin''
            \<and> parseChainIndexEnd (env w ''CHAIN_INDEX_END'') = Inr e \<longrightarrow>
          (\<exists>cc. chain (env w) (load w) = Inr cc \<and> CHAIN_INDEX_BEGIN cc = origin))
       \<and> (env w ''CHAIN_INDEX_BEGIN'' = Some ''tip''
            \<and> parseChainIndexEnd (env w ''CHAIN_INDEX_END'') = Inr e \<longrightarrow>
          (\<exists>cc. chain (env w) (load w) = Inr cc \<and> CHAIN_INDEX_BEGIN cc = tip))
       \<and> (env w ''CHAIN_INDEX_BEGIN'' = Some (decimal n @ '':'' @ h)
            \<and> h \<noteq> [] \<and> CHR '':'' \<notin> set h
            \<and> parseChainIndexEnd (env w ''CHAIN_INDEX_END'') = Inr e \<longrightarrow>
          (\<exists>cc. chain (env w) (load w) = Inr cc
              \<and> CHAIN_INDEX_BEGIN cc = at_point \<lparr>slot = numberValue False (int n), hash = h\<rparr>)
          \<and> (n < 2 ^ 53 \<longrightarrow> numberValue False (int n) = Finite (int n)))
       \<and> ((env w ''CHAIN_INDEX_BEGIN'' = None \<or> env w ''CHAIN_INDEX_BEGIN'' = Some [])
            \<and> bootstrap config = p # ps
            \<and> parseChainIndexEnd (env w ''CHAIN_INDEX_END'') = Inr e \<longrightarrow>
          (\<exists>cc. chain (env w) (load w) = Inr cc \<and> CHAIN_INDEX_BEGIN cc = at_point p))
       \<and> ((env w ''CHAIN_INDEX_BEGIN'' = None \<or> env w ''CHAIN_INDEX_BEGIN'' = Some [])
            \<and> bootstrap config = [] \<longrightarrow>
          chain (env w) (load w) = Inl (Error begin_missing))
       \<and> (env w ''CHAIN_INDEX_BEGIN'' = Some raw \<and> raw \<noteq> [] \<and> raw \<noteq> ''origin'' \<and> raw \<noteq> ''tip''
            \<and> CHR '':'' \<notin> set raw \<longrightarrow>
          chain (env w) (load w) = Inl (Assertion ''Must be <slot>:<hash>''))
       \<and> (env w ''CHAIN_INDEX_BEGIN'' = Some (s @ '':'' @ rest) \<and> CHR '':'' \<notin> set s
            \<and> (rest = [] \<or> hd rest = CHR '':''
                \<or> s = [] \<or> (hd s \<notin> set ''0123456789+-'' \<and> \<not> isWhiteSpace (of_char (hd s)))) \<longrightarrow>
          chain (env w) (load w) = Inl (Assertion ''Must be <slot>:<hash>''))
       \<and> (env w ''CHAIN_INDEX_BEGIN'' = Some raw \<and> raw \<noteq> [] \<longrightarrow>
          map_sum id CHAIN_INDEX_BEGIN (chain (env w) (\<lambda>p. Inr config'))
            = map_sum id CHAIN_INDEX_BEGIN (chain (env w) (load w)))
       \<and> (chain (env w) (load w) = Inl err \<and> main w argv = (out, st)
            \<and> select_indexers (ENV w) argv = (warned, Inr (ws, names)) \<and> ''chain'' \<in> set names \<longrightarrow>
          list_all (\<lambda>e. \<not> is_start e) (effects st) \<and> (\<exists>e'. out = Threw e'))"
proof (intro conjI impI)
  note c = chain_loaded [of "env w" path "load w" config, OF assms]
  note ex = chain_explicit [of "env w" path "load w" config, OF assms]
  note mal = chain_malformed [of "env w" path "load w" config, OF assms]
  {
    assume a: "env w ''CHAIN_INDEX_BEGIN'' = Some ''origin''
            \<and> parseChainIndexEnd (env w ''CHAIN_INDEX_END'') = Inr e"
    then have "parseChainIndexBegin (env w ''CHAIN_INDEX_BEGIN'') = Inr (Some origin)"
      by (simp add: parseChainIndexBegin_keywords)
    with a show "\<exists>cc. chain (env w) (load w) = Inr cc \<and> CHAIN_INDEX_BEGIN cc = origin"
      by (intro ex) simp_all
  }
  {
    assume a: "env w ''CHAIN_INDEX_BEGIN'' = Some ''tip''
            \<and> parseChainIndexEnd (env w ''CHAIN_INDEX_END'') = Inr e"
    then have "parseChainIndexBegin (env w ''CHAIN_INDEX_BEGIN'') = Inr (Some tip)"
      by (simp add: parseChainIndexBegin_keywords)
    with a show "\<exists>cc. chain (env w) (load w) = Inr cc \<and> CHAIN_INDEX_BEGIN cc = tip"
      by (intro ex) simp_all
  }
  {
    assume a: "env w ''CHAIN_INDEX_BEGIN'' = Some (decimal n @ '':'' @ h)
            \<and> h \<noteq> [] \<and> CHR '':'' \<notin> set h
            \<and> parseChainIndexEnd (env w ''CHAIN_INDEX_END'') = Inr e"
    then have "parseChainIndexBegin (env w ''CHAIN_INDEX_BEGIN'')
        = Inr (Some (at_point \<lparr>slot = numberValue False (int n), hash = h\<rparr>))"
      using parseChainIndexBegin_point [of h n] by simp
    with a show "\<exists>cc. chain (env w) (load w) = Inr cc
              \<and> CHAIN_INDEX_BEGIN cc = at_point \<lparr>slot = numberValue False (int n), hash = h\<rparr>"
      by (intro ex) simp_all
  }
  {
    assume "n < 2 ^ 53"
    then show "numberValue False (int n) = Finite (int n)" by (rule numberValue_small)
  }
  {
    assume a: "(env w ''CHAIN_INDEX_BEGIN'' = None \<or> env w ''CHAIN_INDEX_BEGIN'' = Some [])
            \<and> bootstrap config = p # ps
            \<and> parseChainIndexEnd (env w ''CHAIN_INDEX_END'') = Inr e"
    then have "parseChainIndexBegin (env w ''CHAIN_INDEX_BEGIN'') = Inr None"
      by (simp add: parseChainIndexBegin_None)
    with a show "\<exists>cc. chain (env w) (load w) = Inr cc \<and> CHAIN_INDEX_BEGIN cc = at_point p"
      unfolding c by simp
  }
  {
    assume a: "(env w ''CHAIN_INDEX_BEGIN'' = None \<or> env w ''CHAIN_INDEX_BEGIN'' = Some [])
            \<and> bootstrap config = []"
    then have "parseChainIndexBegin (env w ''CHAIN_INDEX_BEGIN'') = Inr None"
      by (simp add: parseChainIndexBegin_None)
    with a show "chain (env w) (load w) = Inl (Error begin_missing)"
      unfolding c by simp
  }
  {
    assume a: "env w ''CHAIN_INDEX_BEGIN'' = Some raw \<and> raw \<noteq> [] \<and> raw \<noteq> ''origin'' \<and> raw \<noteq> ''tip''
            \<and> CHR '':'' \<notin> set raw"
    then have "parseChainIndexBegin (env w ''CHAIN_INDEX_BEGIN'') = Inl (Assertion ''Must be <slot>:<hash>'')"
      using parseChainIndexBegin_no_colon [of raw] by simp
    then show "chain (env w) (load w) = Inl (Assertion ''Must be <slot>:<hash>'')" by (rule mal)
  }
  {
    assume a: "env w ''CHAIN_INDEX_BEGIN'' = Some (s @ '':'' @ rest) \<and> CHR '':'' \<notin> set s
            \<and> (rest = [] \<or> hd rest = CHR '':''
                \<or> s = [] \<or> (hd s \<notin> set ''0123456789+-'' \<and> \<not> isWhiteSpace (of_char (hd s))))"
    then have r: "env w ''CHAIN_INDEX_BEGIN'' = Some (s @ CHR '':'' # rest)" and s: "CHR '':'' \<notin> set s"
      by simp_all
    from a consider "rest = [] \<or> hd rest = CHR '':''"
      | "s = [] \<or> (hd s \<notin> set ''0123456789+-'' \<and> \<not> isWhiteSpace (of_char (hd s)))" by blast
    then have "parseChainIndexBegin (Some (s @ CHR '':'' # rest)) = Inl (Assertion ''Must be <slot>:<hash>'')"
    proof cases
      case 1 with s show ?thesis by (rule parseChainIndexBegin_no_hash)
    next
      case 2 with s show ?thesis by (rule parseChainIndexBegin_no_slot)
    qed
    then have "parseChainIndexBegin (env w ''CHAIN_INDEX_BEGIN'') = Inl (Assertion ''Must be <slot>:<hash>'')"
      by (simp only: r)
    then show "chain (env w) (load w) = Inl (Assertion ''Must be <slot>:<hash>'')" by (rule mal)
  }
  {
    assume a: "env w ''CHAIN_INDEX_BEGIN'' = Some raw \<and> raw \<noteq> []"
    then show "map_sum id CHAIN_INDEX_BEGIN (chain (env w) (\<lambda>p. Inr config'))
            = map_sum id CHAIN_INDEX_BEGIN (chain (env w) (load w))"
      by (intro chain_begin_independent [of "env w" path "load w" config raw config', OF assms]) simp_all
  }
  {
    assume a: "chain (env w) (load w) = Inl err \<and> main w argv = (out, st)
            \<and> select_indexers (ENV w) argv = (warned, Inr (ws, names)) \<and> ''chain'' \<in> set names"
    then have "list_all (\<lambda>e. \<not> is_start e) (effects st) \<and> (\<exists>e'. out = Threw e')"
      using chain_fails_before_start by blast
    then show "list_all (\<lambda>e. \<not> is_start e) (effects st)" "\<exists>e'. out = Threw e'" by simp_all
  }
qed

theorem begin_precedence_witness:
  "(\<exists>cc. chain (env (begin_world ''origin'')) (load (begin_world ''origin'')) = Inr cc
         \<and> CHAIN_INDEX_BEGIN cc = origin)
   \<and> (\<exists>cc. chain (env (begin_world ''tip'')) (load (begin_world ''tip'')) = Inr cc
         \<and> CHAIN_INDEX_BEGIN cc = tip)
   \<and> decimal 4492800 @ '':'' @ ''f8084c61'' = ''4492800:f8084c61''
   \<and> (\<exists>cc. chain (env (begin_world ''4492800:f8084c61'')) (load (begin_world ''4492800:f8084c61'')) = Inr cc
         \<and> CHAIN_INDEX_BEGIN cc = at_point \<lparr>slot = Finite 4492800, hash = ''f8084c61''\<rparr>)
   \<and> env example_world ''CHAIN_INDEX_BEGIN'' = None
   \<and> (\<exists>cc. chain (env example_world) (load example_world) = Inr cc
          \<and> CHAIN_INDEX_BEGIN cc = at_point \<lparr>slot = Finite 1, hash = ''h''\<rparr>)
   \<and> load no_bootstrap_world ''chain.yaml'' = Inr \<lparr>bootstrap = []\<rparr>
   \<and> chain (env no_bootstrap_world) (load no_bootstrap_world) = Inl (Error begin_missing)
   \<and> chain (env (begin_world ''abc'')) (load (begin_world ''abc''))
       = Inl (Assertion ''Must be <slot>:<hash>'')
   \<and> chain (env (begin_world ''4492800:'')) (load (begin_world ''4492800:''))
       = Inl (Assertion ''Must be <slot>:<hash>'')
   \<and> chain (env (begin_world ''slot:hash'')) (load (begin_world ''slot:hash''))
       = Inl (Assertion ''Must be <slot>:<hash>'')
   \<and> map_sum id CHAIN_INDEX_BEGIN (chain (env (begin_world ''tip'')) (\<lambda>p. Inr \<lparr>bootstrap = []\<rparr>))
       = map_sum id CHAIN_INDEX_BEGIN (chain (env (begin_world ''tip'')) (load (begin_world ''tip'')))
   \<and> select_indexers (ENV no_bootstrap_world) [''chain''] = ([], Inr (False, [''chain'']))
   \<and> list_all (\<lambda>e. \<not> is_start e) (effects (snd (main no_bootstrap_world [''chain''])))
   \<and> (\<exists>e'. fst (main no_bootstrap_world [''chain'']) = Threw e')"
proof -
  let ?cfg = "\<lparr>bootstrap = [\<lparr>slot = Finite 1, hash = ''h''\<rparr>]\<rparr>"
  let ?m = "main no_bootstrap_world [''chain'']"
  note P = begin_precedence [where path = "''chain.yaml''"]
  note B = begin_world_loads
  note t1 = P [where w = "begin_world ''origin''", OF B(1) B(2), THEN conjunct1,
      THEN mp, OF conjI, OF B(3) B(4)]
  note t2 = P [where w = "begin_world ''tip''", OF B(1) B(2), THEN conjunct2, THEN conjunct1,
      THEN mp, OF conjI, OF B(3) B(4)]
  have dec: "decimal 4492800 @ '':'' @ ''f8084c61'' = ''4492800:f8084c61''"
    by (simp add: decimal.simps)
  have b3: "env (begin_world ''4492800:f8084c61'') ''CHAIN_INDEX_BEGIN''
      = Some (decimal 4492800 @ '':'' @ ''f8084c61'')"
    unfolding dec by (rule B(3))
  have h1: "''f8084c61'' \<noteq> []" by simp
  have h2: "CHR '':'' \<notin> set ''f8084c61''" by simp
  have small: "(4492800 :: nat) < 2 ^ 53" by simp
  note t3 = P [where w = "begin_world ''4492800:f8084c61''" and n = 4492800 and h = "''f8084c61''",
      OF B(1) B(2), THEN conjunct2, THEN conjunct2, THEN conjunct1,
      THEN mp, OF conjI, OF b3 conjI, OF h1 conjI, OF h2 B(4)]
  note t3b = t3 [THEN conjunct2, THEN mp, OF small]
  have i: "int 4492800 = 4492800" by simp
  note t3c = t3b [unfolded i]
  note t3a = t3 [THEN conjunct1, unfolded i t3c]
  have e1: "requiredEnv (env example_world) ''CHAIN_INDEX_CONFIG'' = Inr ''chain.yaml''" by code_simp
  have e2: "load example_world ''chain.yaml'' = Inr ?cfg" by code_simp
  have e3: "env example_world ''CHAIN_INDEX_BEGIN'' = None" by code_simp
  have e4: "bootstrap ?cfg = \<lparr>slot = Finite 1, hash = ''h''\<rparr> # []" by simp
  have e5: "parseChainIndexEnd (env example_world ''CHAIN_INDEX_END'') = Inr None" by code_simp
  have n1: "requiredEnv (env no_bootstrap_world) ''CHAIN_INDEX_CONFIG'' = Inr ''chain.yaml''" by code_simp
  have n2: "load no_bootstrap_world ''chain.yaml'' = Inr \<lparr>bootstrap = []\<rparr>" by code_simp
  have n3: "env no_bootstrap_world ''CHAIN_INDEX_BEGIN'' = None" by code_simp
  have n4: "bootstrap \<lparr>bootstrap = []\<rparr> = []" by simp
  note t4 = P [where w = example_world, OF e1 e2,
      THEN conjunct2, THEN conjunct2, THEN conjunct2, THEN conjunct1,
      THEN mp, OF conjI, OF disjI1 conjI, OF e3 e4 e5]
  note t5 = P [where w = no_bootstrap_world, OF n1 n2,
      THEN conjunct2, THEN conjunct2, THEN conjunct2, THEN conjunct2, THEN conjunct1,
      THEN mp, OF conjI, OF disjI1, OF n3 n4]
  have a1: "''abc'' \<noteq> []" "''abc'' \<noteq> ''origin''" "''abc'' \<noteq> ''tip''" "CHR '':'' \<notin> set ''abc''"
    by simp_all
  note t6 = P [where w = "begin_world ''abc''", OF B(1) B(2),
      THEN conjunct2, THEN conjunct2, THEN conjunct2, THEN conjunct2, THEN conjunct2, THEN conjunct1,
      THEN mp, OF conjI, OF B(3) conjI, OF a1(1) conjI, OF a1(2) conjI, OF a1(3) a1(4)]
  have s7: "''4492800'' @ '':'' @ [] = ''4492800:''" by simp
  have b7: "env (begin_world ''4492800:'') ''CHAIN_INDEX_BEGIN'' = Some (''4492800'' @ '':'' @ [])"
    unfolding s7 by (rule B(3))
  have c7: "CHR '':'' \<notin> set ''4492800''" by simp
  note t7 = P [where w = "begin_world ''4492800:''" and s = "''4492800''" and rest = "[]",
      OF B(1) B(2),
      THEN conjunct2, THEN conjunct2, THEN conjunct2, THEN conjunct2, THEN conjunct2, THEN conjunct2,
      THEN conjunct1, THEN mp, OF conjI, OF b7 conjI, OF c7 disjI1, OF refl]
  have s8: "''slot'' @ '':'' @ ''hash'' = ''slot:hash''" by simp
  have b8: "env (begin_world ''slot:hash'') ''CHAIN_INDEX_BEGIN'' = Some (''slot'' @ '':'' @ ''hash'')"
    unfolding s8 by (rule B(3))
  have c8: "CHR '':'' \<notin> set ''slot''" by simp
  have d8: "hd ''slot'' \<notin> set ''0123456789+-'' \<and> \<not> isWhiteSpace (of_char (hd ''slot''))"
    by (simp add: isWhiteSpace_def)
  note t8 = P [where w = "begin_world ''slot:hash''" and s = "''slot''" and rest = "''hash''",
      OF B(1) B(2),
      THEN conjunct2, THEN conjunct2, THEN conjunct2, THEN conjunct2, THEN conjunct2, THEN conjunct2,
      THEN conjunct1, THEN mp, OF conjI, OF b8 conjI, OF c8 disjI2, OF disjI2, OF disjI2, OF d8]
  have a9: "''tip'' \<noteq> []" by simp
  note t9 = P [where w = "begin_world ''tip''" and config' = "\<lparr>bootstrap = []\<rparr>",
      OF B(1) B(2),
      THEN conjunct2, THEN conjunct2, THEN conjunct2, THEN conjunct2, THEN conjunct2, THEN conjunct2,
      THEN conjunct2, THEN conjunct1, THEN mp, OF conjI, OF B(3) a9]
  have s1: "select_indexers (ENV no_bootstrap_world) [''chain''] = ([], Inr (False, [''chain'']))"
    by code_simp
  have s2: "''chain'' \<in> set [''chain'']" by simp
  have p: "?m = (fst ?m, snd ?m)" by simp
  note t10 = P [where w = no_bootstrap_world and argv = "[''chain'']" and out = "fst ?m" and st = "snd ?m",
      OF n1 n2,
      THEN conjunct2, THEN conjunct2, THEN conjunct2, THEN conjunct2, THEN conjunct2, THEN conjunct2,
      THEN conjunct2, THEN conjunct2, THEN mp, OF conjI, OF t5 conjI, OF p conjI, OF s1 s2]
  show ?thesis
    apply (intro conjI)
                  apply (rule t1)
                 apply (rule t2)
                apply (rule dec)
               apply (rule t3a)
              apply (rule e3)
             apply (rule t4)
            apply (rule n2)
           apply (rule t5)
          apply (rule t6)
         apply (rule t7)
        apply (rule t8)
       apply (rule t9)
      apply (rule s1)
     apply (rule t10 [THEN conjunct1])
    apply (rule t10 [THEN conjunct2])
    done
qed

theorem begin_precedence_counterexample:
  "env (begin_world ''abc'') ''CHAIN_INDEX_BEGIN'' = Some ''abc''
   \<and> load (begin_world ''abc'') ''chain.yaml'' = Inr \<lparr>bootstrap = [\<lparr>slot = Finite 1, hash = ''h''\<rparr>]\<rparr>
   \<and> chain (env (begin_world ''abc'')) (load (begin_world ''abc''))
       = Inl (Assertion ''Must be <slot>:<hash>'')"
  by code_simp

text \<open>
  Claim C6. \<open>initialize\<close> adds to the fetched set of the context exactly the non-null
  \<open>etag\<close> values of the rows of \<open>ai.logo\<close>. When a \<open>fetch\<close> returns, its tasks are
  the tasks of the listed objects whose ETag is undefined or not in the fetched set, in
  the order of the listing, the number it logs as skipped is the number of the listed
  objects whose ETag is in the fetched set, and \<open>continue\<close> is false. It does return
  when the listing ends within the pages requested and every listed object has a key.
\<close>

theorem fetched_etags_are_skipped:
  "initialize (Inr rows) ctx
     = Inr (ctx\<lparr>fetched := fetched ctx \<union> {e. \<exists>c l. (c, l, Some e) \<in> set rows}\<rparr>)
   \<and> (fetch n s3 ctx = Some (Inr (sk, res)) \<longrightarrow>
        (\<exists>objs. listed n s3 (s3Bucket ctx) None = Some objs
           \<and> tasks res = map task_of (filter (\<lambda>obj. \<not> is_fetched (fetched ctx) obj) objs)
           \<and> sk = length (filter (is_fetched (fetched ctx)) objs)
           \<and> continue res = False))
   \<and> (listed n s3 (s3Bucket ctx) None = Some objs
        \<and> (\<forall>obj \<in> set objs. \<exists>k. Key obj = Some k \<and> k \<noteq> []) \<longrightarrow>
        (\<exists>r. fetch n s3 ctx = Some (Inr r)))"
proof (intro conjI impI)
  show "initialize (Inr rows) ctx
     = Inr (ctx\<lparr>fetched := fetched ctx \<union> {e. \<exists>c l. (c, l, Some e) \<in> set rows}\<rparr>)"
    by (rule initialize_fetched)
next
  assume a: "fetch n s3 ctx = Some (Inr (sk, res))"
  then obtain ts where f: "fetchTasksFromS3 n s3 (s3Bucket ctx) (fetched ctx) = Some (Inr (sk, ts))"
    and r: "res = \<lparr>tasks = ts, continue = False\<rparr>"
    by (auto simp: fetch_def split: option.splits sum.splits)
  from fetchPages_Inr [OF f [unfolded fetchTasksFromS3_def]] r
  show "\<exists>objs. listed n s3 (s3Bucket ctx) None = Some objs
           \<and> tasks res = map task_of (filter (\<lambda>obj. \<not> is_fetched (fetched ctx) obj) objs)
           \<and> sk = length (filter (is_fetched (fetched ctx)) objs)
           \<and> continue res = False" by auto
next
  assume a: "listed n s3 (s3Bucket ctx) None = Some objs
        \<and> (\<forall>obj \<in> set objs. \<exists>k. Key obj = Some k \<and> k \<noteq> [])"
  then have "\<exists>r. fetchPages n s3 (s3Bucket ctx) (fetched ctx) None (0, []) = Some (Inr r)"
    using fetchPages_total by blast
  then show "\<exists>r. fetch n s3 ctx = Some (Inr r)"
    by (auto simp: fetch_def fetchTasksFromS3_def)
qed

theorem fetched_etags_are_skipped_witness:
  "{e. \<exists>c l. (c, l, Some e) \<in> set example_rows} = {''e1''}
   \<and> initialize (Inr example_rows) \<lparr>s3Bucket = ''bucket'', fetched = {}\<rparr>
       = Inr (\<lparr>s3Bucket = ''bucket'', fetched = {}\<rparr>
                \<lparr>fetched := fetched \<lparr>s3Bucket = ''bucket'', fetched = {}\<rparr>
                             \<union> {e. \<exists>c l. (c, l, Some e) \<in> set example_rows}\<rparr>)
   \<and> fetch 2 example_s3 example_context
       = Some (Inr (1, \<lparr>tasks = [\<lparr>key = ''logos/a/B/2.png'', etag = Some ''e2''\<rparr>,
                                  \<lparr>key = ''logos/a/C/3.png'', etag = None\<rparr>],
                        continue = False\<rparr>))
   \<and> listed 2 example_s3 (s3Bucket example_context) None
       = Some [\<lparr>Key = Some ''logos/a/A/1.png'', ETag = Some ''e1''\<rparr>,
               \<lparr>Key = Some ''logos/a/B/2.png'', ETag = Some ''e2''\<rparr>,
               \<lparr>Key = Some ''logos/a/C/3.png'', ETag = None\<rparr>]
   \<and> (\<exists>objs. listed 2 example_s3 (s3Bucket example_context) None = Some objs
          \<and> tasks \<lparr>tasks = [\<lparr>key = ''logos/a/B/2.png'', etag = Some ''e2''\<rparr>,
                             \<lparr>key = ''logos/a/C/3.png'', etag = None\<rparr>],
                    continue = False\<rparr>
              = map task_of (filter (\<lambda>obj. \<not> is_fetched (fetched example_context) obj) objs)
          \<and> (1 :: nat) = length (filter (is_fetched (fetched example_context)) objs)
          \<and> continue \<lparr>tasks = [\<lparr>key = ''logos/a/B/2.png'', etag = Some ''e2''\<rparr>,
                                \<lparr>key = ''logos/a/C/3.png'', etag = None\<rparr>],
                       continue = False\<rparr> = False)
   \<and> (\<exists>r. fetch 2 example_s3 example_context = Some (Inr r))"
proof -
  let ?res = "\<lparr>tasks = [\<lparr>key = ''logos/a/B/2.png'', etag = Some ''e2''\<rparr>,
                         \<lparr>key = ''logos/a/C/3.png'', etag = None\<rparr>],
                continue = False\<rparr>"
  let ?objs = "[\<lparr>Key = Some ''logos/a/A/1.png'', ETag = Some ''e1''\<rparr>,
               \<lparr>Key = Some ''logos/a/B/2.png'', ETag = Some ''e2''\<rparr>,
               \<lparr>Key = Some ''logos/a/C/3.png'', ETag = None\<rparr>]"
  have r1: "{e. \<exists>c l. (c, l, Some e) \<in> set example_rows} = {''e1''}"
    by (auto simp: example_rows_def)
  have f1: "fetch 2 example_s3 example_context = Some (Inr (1, ?res))" by code_simp
  have l1: "listed 2 example_s3 (s3Bucket example_context) None = Some ?objs" by code_simp
  have k1: "\<forall>obj \<in> set ?objs. \<exists>k. Key obj = Some k \<and> k \<noteq> []" by simp
  note t = fetched_etags_are_skipped
    [of example_rows "\<lparr>s3Bucket = ''bucket'', fetched = {}\<rparr>"]
  note u = fetched_etags_are_skipped [of _ example_context 2 example_s3 1 ?res ?objs]
  show ?thesis
    apply (intro conjI)
         apply (rule r1)
        apply (rule t [THEN conjunct1])
       apply (rule f1)
      apply (rule l1)
     apply (rule u [THEN conjunct2, THEN conjunct1, THEN mp, OF f1])
    apply (rule u [THEN conjunct2, THEN conjunct2, THEN mp, OF conjI, OF l1 k1])
    done
qed

text \<open>
  Claim C7. Running the setup of the ai.logo indexer on the schema state that a first run
  has left gives the result and the schema state of the first run, whatever the schema
  state before the first run was: both statements create only what does not exist. When
  the first run succeeds, the second succeeds and changes nothing.
\<close>

theorem setup_idempotent:
  "aiLogoIndexer_setup (snd (aiLogoIndexer_setup db)) = aiLogoIndexer_setup db
   \<and> (fst (aiLogoIndexer_setup db) = None \<longrightarrow>
        aiLogoIndexer_setup (snd (aiLogoIndexer_setup db)) = (None, snd (aiLogoIndexer_setup db)))"
proof -
  have 1: "aiLogoIndexer_setup (snd (aiLogoIndexer_setup db)) = aiLogoIndexer_setup db"
    by (rule setup_cases)
  moreover have "aiLogoIndexer_setup db = (None, snd (aiLogoIndexer_setup db))"
    if "fst (aiLogoIndexer_setup db) = None"
    using that by (cases "aiLogoIndexer_setup db") simp
  ultimately show ?thesis by simp
qed

theorem setup_idempotent_witness:
  "fst (aiLogoIndexer_setup example_database) = None
   \<and> relations (snd (aiLogoIndexer_setup example_database)) (''ai'', ''logo_letter_index'')
       = Some (Index ''logo'' [''letter''])
   \<and> aiLogoIndexer_setup (snd (aiLogoIndexer_setup example_database))
       = (None, snd (aiLogoIndexer_setup example_database))"
proof -
  have s1: "fst (aiLogoIndexer_setup example_database) = None" by code_simp
  have s2: "relations (snd (aiLogoIndexer_setup example_database)) (''ai'', ''logo_letter_index'')
       = Some (Index ''logo'' [''letter''])" by code_simp
  note t = setup_idempotent [of example_database, THEN conjunct2, THEN mp, OF s1]
  show ?thesis
    apply (intro conjI)
      apply (rule s1)
     apply (rule s2)
    apply (rule t)
    done
qed

end
